theory Spec2Isabelle
  imports Complex_Main "HOL-Library.Multiset" "HOL-Library.Sublist" "HOL-Library.Stream"
    "HOL-Library.Word"
begin

section \<open>Membrane computing components (reservoir/membrane.go)\<close>

text \<open>
  Conventions of the embedding.
  \<^item> A stored \<open>float64\<close> is modelled by the real number it denotes. Infinities and NaN
    as stored values, and the sign of zero, are outside the model: the data model of the
    specification puts permeability and mobility in the interval from 0 to 1. Where the
    outcome of a comparison depends on the arithmetic, in the threshold test of
    \<open>PassObjects\<close>, the operations are those of binary64: every product is rounded to
    nearest, ties to even. Elsewhere the arithmetic on these values is exact.
  \<^item> Go's \<open>int\<close> is modelled by \<open>int\<close> where the code only compares it, converts it or
    increments it below a bound it has just checked (priorities, charges, levels and
    depths). The step counter, which is incremented without a bound, is a 64-bit word.
  \<^item> A \<open>*Membrane\<close> is an address (a \<open>nat\<close>) into a store \<open>nat \<Rightarrow> Membrane\<close>; the nil
    pointer of \<open>Parent\<close> and of the argument of \<open>PassObjects\<close> is \<open>None\<close>. Go has no
    dangling pointers, so every address denotes a membrane. The elements of \<open>Children\<close>
    are addresses: \<open>AddChild\<close> writes to the child it is given, so it never stores nil.
  \<^item> A slice is modelled by the list of its elements (no two membranes share a backing
    array). A \<open>map[K]bool\<close> whose stored values are all \<open>true\<close> is the set of its keys.
  \<^item> A \<open>func([]Object) []Object\<close> value is a pure function, \<open>None\<close> when it is nil.
\<close>

record Object =
  Type :: string
  Value :: real
  Charge :: int
  Mobility :: real

record EvolutionRule =
  Name :: string
  Priority :: int
  InputTypes :: "string list"
  OutputTypes :: "string list"
  Conditions :: "string list"
  Transform :: "(Object list \<Rightarrow> Object list) option"

record Membrane =
  ID :: string
  Level :: int
  Permeability :: real
  Objects :: "Object list"
  Rules :: "EvolutionRule list"
  Parent :: "nat option"
  Children :: "nat list"

type_synonym store = "nat \<Rightarrow> Membrane"

datatype error = NilTarget | DimensionMismatch | SizeMismatch | EmptyInput

subsection \<open>Evolve: ordering the rules\<close>

text \<open>
  The exchange sort of \<open>Evolve\<close>: for every \<open>i\<close>, every later position \<open>j\<close> whose rule has a
  strictly higher priority than the rule now at \<open>i\<close> is swapped with it.
\<close>

definition swapIfHigher :: "nat \<Rightarrow> nat \<Rightarrow> EvolutionRule list \<Rightarrow> EvolutionRule list" where
  "swapIfHigher i j rs =
     (if Priority (rs ! j) > Priority (rs ! i) then rs[i := rs ! j, j := rs ! i] else rs)"

definition sortInner :: "nat \<Rightarrow> EvolutionRule list \<Rightarrow> EvolutionRule list" where
  "sortInner i rs = fold (swapIfHigher i) [i + 1 ..< length rs] rs"

definition sortRules :: "EvolutionRule list \<Rightarrow> EvolutionRule list" where
  "sortRules rs = fold sortInner [0 ..< length rs] rs"

subsection \<open>Evolve: matching\<close>

text \<open>
  The scan of \<open>findMatches\<close> over the objects from index \<open>i\<close> on: \<open>match\<close> is the provisional
  match, \<open>typeNeeded\<close> the set of types still wanted. The scan stops (\<open>break\<close>) with one
  match as soon as \<open>typeNeeded\<close> is empty; when the objects run out, no match is returned.
\<close>

fun scanObjects :: "Object list \<Rightarrow> nat \<Rightarrow> nat set \<Rightarrow> nat list \<Rightarrow> string set \<Rightarrow> nat list list" where
  "scanObjects [] i usedObjs match typeNeeded = []"
| "scanObjects (obj # objs) i usedObjs match typeNeeded =
     (if i \<in> usedObjs then scanObjects objs (i + 1) usedObjs match typeNeeded
      else if Type obj \<in> typeNeeded then
        (if typeNeeded - {Type obj} = {} then [match @ [i]]
         else scanObjects objs (i + 1) usedObjs (match @ [i]) (typeNeeded - {Type obj}))
      else scanObjects objs (i + 1) usedObjs match typeNeeded)"

definition findMatches :: "Membrane \<Rightarrow> EvolutionRule \<Rightarrow> nat set \<Rightarrow> nat list list" where
  "findMatches m rule usedObjs =
     (if length (InputTypes rule) = 0 then []
      else scanObjects (Objects m) 0 usedObjs [] (set (InputTypes rule)))"

subsection \<open>Evolve: applying the rules\<close>

text \<open>
  The state of the rule loop: the consumed indices, the pending new objects, and a log
  \<open>fired\<close> with one entry (rule, match) for every execution of the body of the loop over
  matches. The log is not in the Go code; nothing reads it.
\<close>

record evolveState =
  usedObjects :: "nat set"
  newObjects :: "Object list"
  fired :: "(EvolutionRule \<times> nat list) list"

definition ruleOutput :: "Membrane \<Rightarrow> EvolutionRule \<Rightarrow> nat list \<Rightarrow> Object list" where
  "ruleOutput m rule match =
     (case Transform rule of
        None \<Rightarrow> []
      | Some f \<Rightarrow> f (map (\<lambda>idx. Objects m ! idx) match))"

definition applyMatch :: "Membrane \<Rightarrow> EvolutionRule \<Rightarrow> nat list \<Rightarrow> evolveState \<Rightarrow> evolveState" where
  "applyMatch m rule match s =
     \<lparr> usedObjects = usedObjects s \<union> set match,
       newObjects = newObjects s @ ruleOutput m rule match,
       fired = fired s @ [(rule, match)] \<rparr>"

definition applyRule :: "Membrane \<Rightarrow> EvolutionRule \<Rightarrow> evolveState \<Rightarrow> evolveState" where
  "applyRule m rule s = fold (applyMatch m rule) (findMatches m rule (usedObjects s)) s"

definition applyRules :: "Membrane \<Rightarrow> evolveState" where
  "applyRules m =
     fold (applyRule m) (sortRules (Rules m))
       \<lparr> usedObjects = {}, newObjects = [], fired = [] \<rparr>"

text \<open>The last loop of \<open>Evolve\<close>: the objects whose index, counted from \<open>i\<close>, is not consumed.\<close>

fun remainingObjects :: "nat set \<Rightarrow> nat \<Rightarrow> Object list \<Rightarrow> Object list" where
  "remainingObjects usedObjs i [] = []"
| "remainingObjects usedObjs i (obj # objs) =
     (if i \<notin> usedObjs then obj # remainingObjects usedObjs (i + 1) objs
      else remainingObjects usedObjs (i + 1) objs)"

text \<open>\<open>Evolve\<close> always returns the nil error, so the model returns the membrane alone.\<close>

definition Evolve :: "Membrane \<Rightarrow> Membrane" where
  "Evolve m =
     (let s = applyRules m
      in m\<lparr>Objects := remainingObjects (usedObjects s) 0 (Objects m) @ newObjects s\<rparr>)"

subsection \<open>Binary64 arithmetic\<close>

text \<open>
  The results of binary64 operations: a finite number (given by its value), an infinity or
  NaN. \<open>round64\<close> is rounding to nearest, ties to even: a nonzero \<open>x\<close> lies in the binade of
  exponent \<open>\<lfloor>log 2 \<bar>x\<bar>\<rfloor>\<close>, raised to -1022 in the subnormal range; the unit in the last
  place is 52 binary places below; a magnitude that reaches \<open>2 ^ 1024\<close> after rounding is an
  infinity.
\<close>

datatype f64 = Finite real | PosInf | NegInf | NaN

definition roundHalfEven :: "real \<Rightarrow> int" where
  "roundHalfEven q =
     (let f = \<lfloor>q\<rfloor>; r = q - of_int f
      in if r < 1/2 then f else if r > 1/2 then f + 1 else if even f then f else f + 1)"

definition round64 :: "real \<Rightarrow> f64" where
  "round64 x =
     (if x = 0 then Finite 0
      else
        (let e = max \<lfloor>log 2 \<bar>x\<bar>\<rfloor> (- 1022);
             ulp = 2 powi (e - 52);
             y = of_int (roundHalfEven (\<bar>x\<bar> / ulp)) * ulp
         in if y \<ge> 2 powi 1024 then (if x > 0 then PosInf else NegInf)
            else Finite (sgn x * y)))"

text \<open>Multiplication, the comparison \<open>>\<close> and \<open>math.Abs\<close>.\<close>

fun fmul :: "f64 \<Rightarrow> f64 \<Rightarrow> f64" where
  "fmul NaN y = NaN"
| "fmul x NaN = NaN"
| "fmul (Finite a) (Finite b) = round64 (a * b)"
| "fmul (Finite a) PosInf = (if a = 0 then NaN else if a > 0 then PosInf else NegInf)"
| "fmul (Finite a) NegInf = (if a = 0 then NaN else if a > 0 then NegInf else PosInf)"
| "fmul PosInf (Finite b) = (if b = 0 then NaN else if b > 0 then PosInf else NegInf)"
| "fmul NegInf (Finite b) = (if b = 0 then NaN else if b > 0 then NegInf else PosInf)"
| "fmul PosInf PosInf = PosInf"
| "fmul PosInf NegInf = NegInf"
| "fmul NegInf PosInf = NegInf"
| "fmul NegInf NegInf = PosInf"

fun fgt :: "f64 \<Rightarrow> f64 \<Rightarrow> bool" where
  "fgt NaN y = False"
| "fgt x NaN = False"
| "fgt (Finite a) (Finite b) = (a > b)"
| "fgt (Finite a) PosInf = False"
| "fgt (Finite a) NegInf = True"
| "fgt PosInf PosInf = False"
| "fgt PosInf y = True"
| "fgt NegInf y = False"

fun fabs :: "f64 \<Rightarrow> f64" where
  "fabs (Finite a) = Finite \<bar>a\<bar>"
| "fabs PosInf = PosInf"
| "fabs NegInf = PosInf"
| "fabs NaN = NaN"

subsection \<open>PassObjects\<close>

definition AddObject :: "nat \<Rightarrow> Object \<Rightarrow> store \<Rightarrow> store" where
  "AddObject a obj st = st(a := (st a)\<lparr>Objects := Objects (st a) @ [obj]\<rparr>)"

text \<open>
  The value of \<open>passProb\<close> at the threshold test, for an object of membrane \<open>m\<close>. The
  constant 1.2 is the binary64 number nearest to it.
\<close>

definition passProb :: "Membrane \<Rightarrow> Object \<Rightarrow> f64" where
  "passProb m obj =
     (let p = fmul (Finite (Permeability m)) (Finite (Mobility obj))
      in if fgt (fabs (round64 (real_of_int (Charge obj)))) (Finite 0)
         then fmul p (round64 1.2) else p)"

text \<open>
  The loop of \<open>PassObjects\<close> over the objects the source held when the loop started.
  \<open>AddObject\<close> writes to the store at once; \<open>remaining\<close> is local until the loop is over.
\<close>

fun passLoop :: "nat \<Rightarrow> nat \<Rightarrow> Object list \<Rightarrow> Object list \<Rightarrow> store \<Rightarrow> Object list \<times> store" where
  "passLoop src tgt [] remaining st = (remaining, st)"
| "passLoop src tgt (obj # objs) remaining st =
     (if fgt (passProb (st src) obj) (round64 0.5)
      then passLoop src tgt objs remaining (AddObject tgt obj st)
      else passLoop src tgt objs (remaining @ [obj]) st)"

text \<open>The body of \<open>PassObjects\<close> once the target is known not to be nil.\<close>

definition moveObjects :: "nat \<Rightarrow> nat \<Rightarrow> store \<Rightarrow> store" where
  "moveObjects src tgt st =
     (case passLoop src tgt (Objects (st src)) [] st of
        (remaining, st') \<Rightarrow> st'(src := (st' src)\<lparr>Objects := remaining\<rparr>))"

definition PassObjects :: "nat \<Rightarrow> nat option \<Rightarrow> store \<Rightarrow> error + store" where
  "PassObjects src target st =
     (case target of
        None \<Rightarrow> Inl NilTarget
      | Some tgt \<Rightarrow> Inr (moveObjects src tgt st))"

subsection \<open>MembraneSystem\<close>

text \<open>\<open>StepCount\<close> is a Go \<open>int\<close> that is incremented: a 64-bit word, \<open>+\<close> wraps.\<close>

record MembraneSystem =
  Root :: nat
  All :: "nat list"
  StepCount :: "64 word"

text \<open>The first loop of \<open>Step\<close>. \<open>Evolve\<close> never returns an error, so this loop has no exit.\<close>

fun evolveAll :: "nat list \<Rightarrow> store \<Rightarrow> store" where
  "evolveAll [] st = st"
| "evolveAll (a # as) st = evolveAll as (st(a := Evolve (st a)))"

fun passToChildren :: "nat \<Rightarrow> nat list \<Rightarrow> store \<Rightarrow> error + store" where
  "passToChildren a [] st = Inr st"
| "passToChildren a (child # cs) st =
     (case PassObjects a (Some child) st of
        Inl e \<Rightarrow> Inl e
      | Inr st' \<Rightarrow> passToChildren a cs st')"

definition transportFrom :: "nat \<Rightarrow> store \<Rightarrow> error + store" where
  "transportFrom a st =
     (case (if Parent (st a) \<noteq> None then PassObjects a (Parent (st a)) st else Inr st) of
        Inl e \<Rightarrow> Inl e
      | Inr st' \<Rightarrow> passToChildren a (Children (st' a)) st')"

fun transportAll :: "nat list \<Rightarrow> store \<Rightarrow> error + store" where
  "transportAll [] st = Inr st"
| "transportAll (a # as) st =
     (case transportFrom a st of
        Inl e \<Rightarrow> Inl e
      | Inr st' \<Rightarrow> transportAll as st')"

definition Step :: "MembraneSystem \<Rightarrow> store \<Rightarrow> error + (MembraneSystem \<times> store)" where
  "Step ms st =
     (case transportAll (All ms) (evolveAll (All ms) st) of
        Inl e \<Rightarrow> Inl e
      | Inr st' \<Rightarrow> Inr (ms\<lparr>StepCount := StepCount ms + 1\<rparr>, st'))"

subsection \<open>Building the hierarchy\<close>

text \<open>
  Allocation: the store comes with the next free address; \<open>NewMembrane\<close> takes it, so
  membranes created later have higher addresses.
\<close>

type_synonym heap = "store \<times> nat"

definition NewMembrane :: "string \<Rightarrow> int \<Rightarrow> real \<Rightarrow> heap \<Rightarrow> nat \<times> heap" where
  "NewMembrane ident level permeability h =
     (case h of (st, free) \<Rightarrow>
        (free, (st(free := \<lparr> ID = ident, Level = level, Permeability = permeability,
                   Objects = [], Rules = [], Parent = None, Children = [] \<rparr>), free + 1)))"

definition AddChild :: "nat \<Rightarrow> nat \<Rightarrow> store \<Rightarrow> store" where
  "AddChild m child st =
     (let st1 = st(child := (st child)\<lparr>Parent := Some m\<rparr>)
      in st1(m := (st1 m)\<lparr>Children := Children (st1 m) @ [child]\<rparr>))"

definition AddRule :: "nat \<Rightarrow> EvolutionRule \<Rightarrow> store \<Rightarrow> store" where
  "AddRule a rule st = st(a := (st a)\<lparr>Rules := Rules (st a) @ [rule]\<rparr>)"

definition spamTransform :: "Object list \<Rightarrow> Object list" where
  "spamTransform objs =
     [\<lparr> Type = ''spam_score'',
        Value = fold (\<lambda>obj total. if Charge obj < 0 then total + Value obj else total) objs 0,
        Charge = -1, Mobility = 0.8 \<rparr>]"

definition hamTransform :: "Object list \<Rightarrow> Object list" where
  "hamTransform objs =
     [\<lparr> Type = ''ham_score'',
        Value = fold (\<lambda>obj total. if Charge obj > 0 then total + Value obj else total) objs 0,
        Charge = 1, Mobility = 0.8 \<rparr>]"

definition affectiveTransform :: "Object list \<Rightarrow> Object list" where
  "affectiveTransform objs =
     map (\<lambda>obj. obj\<lparr>Value := Value obj * 1.1, Type := ''modulated_signal''\<rparr>) objs"

definition CreateDefaultRules :: "EvolutionRule list" where
  "CreateDefaultRules =
     [\<lparr> Name = ''spam_detection'', Priority = 100, InputTypes = [''token'', ''negative_signal''],
        OutputTypes = [''spam_score''], Conditions = [], Transform = Some spamTransform \<rparr>,
      \<lparr> Name = ''ham_detection'', Priority = 100, InputTypes = [''token'', ''positive_signal''],
        OutputTypes = [''ham_score''], Conditions = [], Transform = Some hamTransform \<rparr>,
      \<lparr> Name = ''affective_modulation'', Priority = 50, InputTypes = [''emotion_signal''],
        OutputTypes = [''modulated_signal''], Conditions = [], Transform = Some affectiveTransform \<rparr>]"

type_synonym buildState = "MembraneSystem \<times> heap"

text \<open>
  One iteration of the loop of \<open>buildHierarchy\<close> up to, not including, the recursive call:
  the child number \<open>i\<close> (0 or 1) of \<open>parent\<close> is created, linked, registered and given the
  default rules. The loop runs for \<open>i = 0\<close> and \<open>i = 1\<close>; \<open>buildHierarchy\<close> writes the two
  iterations one after the other. \<open>currentDepth + 1\<close> cannot overflow: it is computed only
  when \<open>currentDepth < maxDepth\<close>.
\<close>

definition spawnChild :: "nat \<Rightarrow> int \<Rightarrow> nat \<Rightarrow> buildState \<Rightarrow> nat \<times> buildState" where
  "spawnChild parent currentDepth i s =
     (case s of (ms, (st, free)) \<Rightarrow>
        (case NewMembrane (ID (st parent) @ ''_'' @ (if i = 0 then ''0'' else ''1''))
                currentDepth (0.5 + 0.1 * real_of_int currentDepth) (st, free) of
           (child, (st1, free1)) \<Rightarrow>
             (child,
              (ms\<lparr>All := All ms @ [child]\<rparr>,
               (fold (AddRule child) CreateDefaultRules (AddChild parent child st1), free1)))))"

function buildHierarchy :: "nat \<Rightarrow> int \<Rightarrow> int \<Rightarrow> buildState \<Rightarrow> buildState" where
  "buildHierarchy parent maxDepth currentDepth s =
     (if currentDepth \<ge> maxDepth then s
      else
        (case spawnChild parent currentDepth 0 s of
           (child0, s0) \<Rightarrow>
             (case spawnChild parent currentDepth 1
                     (buildHierarchy child0 maxDepth (currentDepth + 1) s0) of
                (child1, s1) \<Rightarrow> buildHierarchy child1 maxDepth (currentDepth + 1) s1)))"
  by pat_completeness auto
termination
  by (relation "measure (\<lambda>(parent, maxDepth, currentDepth, s). nat (maxDepth - currentDepth))") auto

declare buildHierarchy.simps [simp del]

definition NewMembraneSystem :: "int \<Rightarrow> heap \<Rightarrow> buildState" where
  "NewMembraneSystem depth h =
     (case NewMembrane ''root'' 0 1.0 h of
        (rootM, h1) \<Rightarrow>
          buildHierarchy rootM depth 1 (\<lparr> Root = rootM, All = [rootM], StepCount = 0 \<rparr>, h1))"

text \<open>The membranes that can be reached from \<open>rootM\<close> through \<open>Children\<close>.\<close>

inductive_set reachable :: "store \<Rightarrow> nat \<Rightarrow> nat set" for st :: store and rootM :: nat where
  reachable_root: "rootM \<in> reachable st rootM"
| reachable_child:
    "a \<in> reachable st rootM \<Longrightarrow> c \<in> set (Children (st a)) \<Longrightarrow> c \<in> reachable st rootM"

code_pred reachablep .

section \<open>Echo state network (reservoir/esn.go)\<close>

text \<open>
  The engine is used by one caller at a time (the mutex is not modelled) and logging is
  left out. A call either returns, with or without an error, and leaves an engine, or
  panics on an index out of range or a negative length.
\<close>

datatype 'a outcome = Returned "error option" 'a | Panicked

record ESNParams =
  ReservoirSize :: int
  SpectralRadius :: real
  InputScaling :: real
  LeakRate :: real
  Sparsity :: real
  RidgeParam :: real
  TreeDepth :: int

record PersonaTrait =
  Valence :: real
  Arousal :: real
  Dominance :: real
  Attention :: real
  Memory :: real
  Creativity :: real

text \<open>
  \<open>inputWeights\<close> is only tested by its length: nil is \<open>[]\<close>. \<open>outputWeights\<close> is compared
  with nil: nil is \<open>None\<close>. \<open>rng\<close> is the generator, given by the values its \<open>Float64\<close> will
  return from now on. \<open>membranes\<close> are created by the engine and only read.
\<close>

record ESN =
  params :: ESNParams
  persona :: PersonaTrait
  inputWeights :: "real list list"
  reservoirWeights :: "real list list"
  outputWeights :: "real list list option"
  state :: "real list"
  membranes :: "Membrane list"
  rng :: "real stream"
  trained :: bool

text \<open>Indexing a slice: \<open>None\<close> is the panic for an index out of range.\<close>

definition elemAt :: "'a list \<Rightarrow> nat \<Rightarrow> 'a option" where
  "elemAt xs i = (if i < length xs then Some (xs ! i) else None)"

text \<open>A loop over \<open>xs\<close> whose body may panic.\<close>

fun foldOpt :: "('a \<Rightarrow> 's \<Rightarrow> 's option) \<Rightarrow> 'a list \<Rightarrow> 's \<Rightarrow> 's option" where
  "foldOpt f [] s = Some s"
| "foldOpt f (x # xs) s = (case f x s of None \<Rightarrow> None | Some s' \<Rightarrow> foldOpt f xs s')"

subsection \<open>setInputWeights\<close>

fun drawRow :: "nat \<Rightarrow> real \<Rightarrow> real stream \<Rightarrow> real list \<times> real stream" where
  "drawRow 0 scaling g = ([], g)"
| "drawRow (Suc d) scaling g =
     (case drawRow d scaling (stl g) of
        (row, g') \<Rightarrow> ((shd g * 2 - 1) * scaling # row, g'))"

fun drawRows :: "nat \<Rightarrow> nat \<Rightarrow> real \<Rightarrow> real stream \<Rightarrow> real list list \<times> real stream" where
  "drawRows 0 d scaling g = ([], g)"
| "drawRows (Suc n) d scaling g =
     (case drawRow d scaling g of
        (row, g1) \<Rightarrow> (case drawRows n d scaling g1 of (rows, g2) \<Rightarrow> (row # rows, g2)))"

definition setInputWeights :: "ESN \<Rightarrow> nat \<Rightarrow> ESN option" where
  "setInputWeights e inputDim =
     (if ReservoirSize (params e) < 0 then None
      else
        (case drawRows (nat (ReservoirSize (params e))) inputDim (InputScaling (params e)) (rng e) of
           (w, g) \<Rightarrow> Some (e\<lparr>inputWeights := w, rng := g\<rparr>)))"

subsection \<open>Update\<close>

text \<open>The sum over \<open>j\<close> of \<open>w[i][j] * xs[j]\<close>, for \<open>j\<close> in the range of \<open>xs\<close>.\<close>

definition weightedSum :: "real list list \<Rightarrow> nat \<Rightarrow> real list \<Rightarrow> real option" where
  "weightedSum w i xs =
     foldOpt (\<lambda>j acc.
         case elemAt w i of
           None \<Rightarrow> None
         | Some row \<Rightarrow> (case elemAt row j of None \<Rightarrow> None | Some wij \<Rightarrow> Some (acc + wij * xs ! j)))
       [0 ..< length xs] 0"

definition neuronUpdate :: "ESN \<Rightarrow> real list \<Rightarrow> nat \<Rightarrow> real option" where
  "neuronUpdate e input i =
     (case weightedSum (inputWeights e) i input of
        None \<Rightarrow> None
      | Some inputSum \<Rightarrow>
          (case weightedSum (reservoirWeights e) i (state e) of
             None \<Rightarrow> None
           | Some recurrentSum \<Rightarrow>
               (let activation = tanh (inputSum + recurrentSum) * (1.0 + 0.1 * Valence (persona e));
                    leakRate = LeakRate (params e) * (1.0 + 0.2 * Attention (persona e))
                in Some ((1 - leakRate) * state e ! i + leakRate * activation))))"

definition newState :: "ESN \<Rightarrow> real list \<Rightarrow> real list option" where
  "newState e input =
     foldOpt (\<lambda>i ns. case neuronUpdate e input i of None \<Rightarrow> None | Some v \<Rightarrow> Some (ns @ [v]))
       [0 ..< length (state e)] []"

definition membraneDecay :: "Membrane \<Rightarrow> real list \<times> real stream \<Rightarrow> real list \<times> real stream" where
  "membraneDecay membrane sg =
     (case sg of (st, g) \<Rightarrow>
        (if shd g < Permeability membrane
         then map (\<lambda>x. x * (1.0 - 0.05 * real_of_int (Level membrane))) st
         else st,
         stl g))"

definition applyMembraneEvolution :: "ESN \<Rightarrow> ESN" where
  "applyMembraneEvolution e =
     (case fold membraneDecay (membranes e) (state e, rng e) of
        (st, g) \<Rightarrow> e\<lparr>state := st, rng := g\<rparr>)"

text \<open>
  One neuron of \<open>applyRicciFlow\<close>: \<open>neighbors\<close> and \<open>cnt\<close> (Go's \<open>count\<close>) are accumulated over the neurons
  with a nonzero weight in row \<open>i\<close>; the state is updated in place, so later neurons see it.
\<close>

definition ricciNeuron :: "real list list \<Rightarrow> real \<Rightarrow> nat \<Rightarrow> real list \<Rightarrow> real list option" where
  "ricciNeuron w memory i st =
     (case foldOpt (\<lambda>j nc.
               case elemAt w i of
                 None \<Rightarrow> None
               | Some row \<Rightarrow>
                   (case elemAt row j of
                      None \<Rightarrow> None
                    | Some wij \<Rightarrow>
                        Some (if wij \<noteq> 0 then (fst nc + st ! j, snd nc + 1) else nc)))
             [0 ..< length st] (0, 0 :: real) of
        None \<Rightarrow> None
      | Some (neighbors, cnt) \<Rightarrow>
          Some (if cnt > 0
                then st[i := st ! i - 0.01 * memory * (st ! i - neighbors / cnt)]
                else st))"

definition applyRicciFlow :: "ESN \<Rightarrow> ESN option" where
  "applyRicciFlow e =
     (case foldOpt (ricciNeuron (reservoirWeights e) (Memory (persona e)))
             [0 ..< length (state e)] (state e) of
        None \<Rightarrow> None
      | Some st \<Rightarrow> Some (e\<lparr>state := st\<rparr>))"

definition Update :: "ESN \<Rightarrow> real list \<Rightarrow> ESN outcome" where
  "Update e input =
     (case (if length (inputWeights e) = 0 then setInputWeights e (length input) else Some e) of
        None \<Rightarrow> Panicked
      | Some e1 \<Rightarrow>
          (case elemAt (inputWeights e1) 0 of
             None \<Rightarrow> Panicked
           | Some row0 \<Rightarrow>
               if length input \<noteq> length row0 then Returned (Some DimensionMismatch) e1
               else
                 (case newState e1 input of
                    None \<Rightarrow> Panicked
                  | Some ns \<Rightarrow>
                      (case applyRicciFlow (applyMembraneEvolution (e1\<lparr>state := ns\<rparr>)) of
                         None \<Rightarrow> Panicked
                       | Some e2 \<Rightarrow> Returned None e2))))"

subsection \<open>Reset\<close>

definition Reset :: "ESN \<Rightarrow> ESN" where
  "Reset e = e\<lparr>state := map (\<lambda>x. 0) (state e)\<rparr>"

subsection \<open>TrainOutput\<close>

text \<open>The forward pass for output \<open>i\<close>: the sum over \<open>j < inputDim\<close> of \<open>w[i][j] * x[j]\<close>.\<close>

definition prediction :: "real list list \<Rightarrow> real list \<Rightarrow> nat \<Rightarrow> nat \<Rightarrow> real option" where
  "prediction w x inputDim i =
     foldOpt (\<lambda>j acc.
         case elemAt w i of
           None \<Rightarrow> None
         | Some row \<Rightarrow>
             (case elemAt row j of
                None \<Rightarrow> None
              | Some wij \<Rightarrow> (case elemAt x j of None \<Rightarrow> None | Some xj \<Rightarrow> Some (acc + wij * xj))))
       [0 ..< inputDim] 0"

definition forwardPass :: "real list list \<Rightarrow> real list \<Rightarrow> nat \<Rightarrow> nat \<Rightarrow> real list option" where
  "forwardPass w x inputDim outputDim =
     foldOpt (\<lambda>i ps. case prediction w x inputDim i of None \<Rightarrow> None | Some p \<Rightarrow> Some (ps @ [p]))
       [0 ..< outputDim] []"

text \<open>The update of \<open>w[i][j]\<close> in the backward pass, with learning rate 0.01.\<close>

definition updateWeight ::
  "real \<Rightarrow> real \<Rightarrow> real list \<Rightarrow> nat \<Rightarrow> nat \<Rightarrow> real list list \<Rightarrow> real list list option" where
  "updateWeight ridge err x i j w =
     (case elemAt x j of
        None \<Rightarrow> None
      | Some xj \<Rightarrow>
          (case elemAt w i of
             None \<Rightarrow> None
           | Some row \<Rightarrow>
               (case elemAt row j of
                  None \<Rightarrow> None
                | Some wij \<Rightarrow>
                    Some (w[i := row[j := wij - 0.01 * (err * xj + ridge * wij)]]))))"

definition backwardPass ::
  "real \<Rightarrow> real list \<Rightarrow> real list \<Rightarrow> real list \<Rightarrow> nat \<Rightarrow> nat \<Rightarrow> real list list
     \<Rightarrow> real list list option" where
  "backwardPass ridge predictions x t inputDim outputDim w =
     foldOpt (\<lambda>i w1.
         case elemAt t i of
           None \<Rightarrow> None
         | Some ti \<Rightarrow> foldOpt (updateWeight ridge (predictions ! i - ti) x i) [0 ..< inputDim] w1)
       [0 ..< outputDim] w"

definition trainSample ::
  "real \<Rightarrow> real list list \<Rightarrow> real list list \<Rightarrow> nat \<Rightarrow> nat \<Rightarrow> nat \<Rightarrow> real list list
     \<Rightarrow> real list list option" where
  "trainSample ridge states targets inputDim outputDim s w =
     (case forwardPass w (states ! s) inputDim outputDim of
        None \<Rightarrow> None
      | Some predictions \<Rightarrow>
          backwardPass ridge predictions (states ! s) (targets ! s) inputDim outputDim w)"

text \<open>The 100 epochs of gradient descent, from the weights \<open>w\<close>.\<close>

definition gradientDescent ::
  "real \<Rightarrow> real list list \<Rightarrow> real list list \<Rightarrow> nat \<Rightarrow> nat \<Rightarrow> real list list
     \<Rightarrow> real list list option" where
  "gradientDescent ridge states targets inputDim outputDim w =
     foldOpt (\<lambda>epoch w1.
         foldOpt (trainSample ridge states targets inputDim outputDim) [0 ..< length states] w1)
       [0 ..< 100] w"

definition TrainOutput :: "ESN \<Rightarrow> real list list \<Rightarrow> real list list \<Rightarrow> ESN outcome" where
  "TrainOutput e states targets =
     (if length states \<noteq> length targets then Returned (Some SizeMismatch) e
      else if length states = 0 then Returned (Some EmptyInput) e
      else
        (let inputDim = length (states ! 0);
             outputDim = length (targets ! 0);
             w0 = replicate outputDim (replicate inputDim 0)
         in case gradientDescent (RidgeParam (params e)) states targets inputDim outputDim w0 of
              None \<Rightarrow> Panicked
            | Some w \<Rightarrow> Returned None (e\<lparr>outputWeights := Some w, trained := True\<rparr>)))"

text \<open>
  \<open>TrainOutput\<close> as the specification words it: the output weights are allocated to zero
  only if absent, and training resumes from the existing matrix otherwise.
\<close>

definition TrainOutput_resuming :: "ESN \<Rightarrow> real list list \<Rightarrow> real list list \<Rightarrow> ESN outcome" where
  "TrainOutput_resuming e states targets =
     (if length states \<noteq> length targets then Returned (Some SizeMismatch) e
      else if length states = 0 then Returned (Some EmptyInput) e
      else
        (let inputDim = length (states ! 0);
             outputDim = length (targets ! 0);
             w0 = (case outputWeights e of
                     None \<Rightarrow> replicate outputDim (replicate inputDim 0)
                   | Some w \<Rightarrow> w)
         in case gradientDescent (RidgeParam (params e)) states targets inputDim outputDim w0 of
              None \<Rightarrow> Panicked
            | Some w \<Rightarrow> Returned None (e\<lparr>outputWeights := Some w, trained := True\<rparr>)))"

section \<open>Auxiliary notions for the statements\<close>

text \<open>
  What holds of every entry (rule, match) of the log, given the indices \<open>u\<close> consumed before
  it: the rule asks for some type, and the match holds one fresh, valid index for each
  distinct type asked for.
\<close>

definition firingOK :: "Membrane \<Rightarrow> nat set \<Rightarrow> EvolutionRule \<times> nat list \<Rightarrow> bool" where
  "firingOK m u f = (InputTypes (fst f) \<noteq> [] \<and> snd f \<noteq> [] \<and> set (snd f) \<inter> u = {} \<and>
      (\<forall>idx \<in> set (snd f). idx < length (Objects m)) \<and>
      distinct (map (\<lambda>idx. Type (Objects m ! idx)) (snd f)) \<and>
      (\<lambda>idx. Type (Objects m ! idx)) ` set (snd f) = set (InputTypes (fst f)))"

text \<open>The tree pointers of a membrane; \<open>Evolve\<close> and \<open>PassObjects\<close> never write them.\<close>

definition links :: "store \<Rightarrow> nat \<Rightarrow> nat option \<times> nat list" where
  "links st a = (Parent (st a), Children (st a))"

text \<open>
  The order of transport the specification describes: the membranes in registry order,
  for each one its parent (if any) first, then its children in child order.
\<close>

definition transportSchedule :: "nat list \<Rightarrow> store \<Rightarrow> (nat \<times> nat) list" where
  "transportSchedule as st =
     concat (map (\<lambda>a. (case Parent (st a) of None \<Rightarrow> [] | Some p \<Rightarrow> [(a, p)]) @
                       map (\<lambda>c. (a, c)) (Children (st a))) as)"

text \<open>A rule with every required type listed once.\<close>

definition dedupTypes :: "EvolutionRule \<Rightarrow> EvolutionRule" where
  "dedupTypes r = r\<lparr>InputTypes := remdups (InputTypes r)\<rparr>"

text \<open>
  The invariant of the construction: the registry is the range of addresses from the root
  to the next free one; every membrane after the root has an earlier parent that lists
  it, one level up, and the permeability of its level; children have later addresses.
\<close>

definition treeInv :: "buildState \<Rightarrow> bool" where
  "treeInv s = (case s of (ms, (st, free)) \<Rightarrow>
     Root ms < free \<and> All ms = [Root ms ..< free] \<and>
     (\<forall>a. Root ms < a \<and> a < free \<longrightarrow>
        (\<exists>p. Parent (st a) = Some p \<and> Root ms \<le> p \<and> p < a \<and> a \<in> set (Children (st p)) \<and>
             Level (st a) = Level (st p) + 1 \<and>
             Permeability (st a) = 0.5 + 0.1 * real_of_int (Level (st a)))) \<and>
     (\<forall>a. Root ms \<le> a \<and> a < free \<longrightarrow> set (Children (st a)) \<subseteq> {a<..<free}))"

text \<open>What the construction keeps of the membranes that exist already.\<close>

definition frame :: "buildState \<Rightarrow> buildState \<Rightarrow> bool" where
  "frame s s' = (case s of (ms, (st, free)) \<Rightarrow> case s' of (ms', (st', free')) \<Rightarrow>
     free \<le> free' \<and> Root ms' = Root ms \<and> StepCount ms' = StepCount ms \<and>
     (\<forall>a < free. ID (st' a) = ID (st a) \<and> Level (st' a) = Level (st a) \<and>
        Permeability (st' a) = Permeability (st a) \<and> Parent (st' a) = Parent (st a)))"

section \<open>Example inputs\<close>

definition tokenObj :: Object where
  "tokenObj = \<lparr> Type = ''token'', Value = 1, Charge = 0, Mobility = 1/2 \<rparr>"

definition signalObj :: Object where
  "signalObj = \<lparr> Type = ''negative_signal'', Value = 2, Charge = -1, Mobility = 1 \<rparr>"

definition producedObj :: Object where
  "producedObj = \<lparr> Type = ''processed'', Value = 2, Charge = 0, Mobility = 1/2 \<rparr>"

definition dupRule :: EvolutionRule where
  "dupRule = \<lparr> Name = ''dup'', Priority = 10, InputTypes = [''token'', ''token''],
     OutputTypes = [''processed''], Conditions = [], Transform = Some (\<lambda>objs. [producedObj]) \<rparr>"

definition nilRule :: EvolutionRule where
  "nilRule = \<lparr> Name = ''sink'', Priority = 10, InputTypes = [''token''],
     OutputTypes = [], Conditions = [], Transform = None \<rparr>"

definition emptyRule :: EvolutionRule where
  "emptyRule = \<lparr> Name = ''spontaneous'', Priority = 20, InputTypes = [],
     OutputTypes = [''processed''], Conditions = [], Transform = Some (\<lambda>objs. [producedObj]) \<rparr>"

definition testMembrane :: "Object list \<Rightarrow> EvolutionRule list \<Rightarrow> Membrane" where
  "testMembrane objs rules = \<lparr> ID = ''test'', Level = 0, Permeability = 1/2, Objects = objs,
     Rules = rules, Parent = None, Children = [] \<rparr>"

definition pairStore :: store where
  "pairStore = (\<lambda>a. if a = 0
      then \<lparr> ID = ''root'', Level = 0, Permeability = 1, Objects = [signalObj],
             Rules = [], Parent = None, Children = [1] \<rparr>
      else \<lparr> ID = ''root_0'', Level = 1, Permeability = 1, Objects = [tokenObj],
             Rules = [], Parent = Some 0, Children = [] \<rparr>)"

definition pairSystem :: MembraneSystem where
  "pairSystem = \<lparr> Root = 0, All = [0, 1], StepCount = 0 \<rparr>"

definition selfStore :: store where
  "selfStore = (\<lambda>a. \<lparr> ID = ''m'', Level = 0, Permeability = 1, Objects = [signalObj],
                        Rules = [], Parent = None, Children = [] \<rparr>)"

definition demoEngine :: ESN where
  "demoEngine =
     \<lparr> params = \<lparr> ReservoirSize = 1, SpectralRadius = 0.95, InputScaling = 1.0, LeakRate = 0.3,
                  Sparsity = 0.1, RidgeParam = 0, TreeDepth = 3 \<rparr>,
       persona = \<lparr> Valence = 0, Arousal = 0.5, Dominance = 0.5, Attention = 0.5, Memory = 0.5,
                   Creativity = 0.5 \<rparr>,
       inputWeights = [[0.5, -0.5]],
       reservoirWeights = [[0]],
       outputWeights = Some [[1]],
       state = [0.25],
       membranes = [\<lparr> ID = ''L1_M0'', Level = 1, Permeability = 0.75, Objects = [], Rules = [],
                      Parent = None, Children = [] \<rparr>],
       rng = sconst 0.5,
       trained = True \<rparr>"

definition emptyStore :: store where
  "emptyStore = (\<lambda>a. \<lparr> ID = [], Level = 0, Permeability = 0, Objects = [], Rules = [],
                        Parent = None, Children = [] \<rparr>)"

section \<open>Properties\<close>

lemmas ex_defs = tokenObj_def signalObj_def producedObj_def dupRule_def nilRule_def emptyRule_def testMembrane_def
lemmas ev_defs = Evolve_def applyRules_def sortRules_def sortInner_def swapIfHigher_def applyRule_def
  findMatches_def applyMatch_def ruleOutput_def

subsection \<open>The exchange sort\<close>

lemma length_swapIfHigher [simp]: "length (swapIfHigher i j rs) = length rs"
  by (simp add: swapIfHigher_def)

lemma mset_swapIfHigher: "i < length rs \<Longrightarrow> j < length rs \<Longrightarrow> mset (swapIfHigher i j rs) = mset rs"
  by (simp add: swapIfHigher_def mset_swap)

lemma inner_inv:
  "i < length rs \<Longrightarrow> k \<le> length rs \<Longrightarrow> i < k \<Longrightarrow>
   (let rs' = fold (swapIfHigher i) [i + 1 ..< k] rs in
      length rs' = length rs \<and> mset rs' = mset rs \<and> take i rs' = take i rs \<and>
      (\<forall>j. i < j \<and> j < k \<longrightarrow> Priority (rs' ! j) \<le> Priority (rs' ! i)))"
proof (induction k)
  case 0
  then show ?case by simp
next
  case (Suc k)
  show ?case
  proof (cases "i < k")
    case False
    with Suc.prems have "k = i" by simp
    then show ?thesis by simp
  next
    case True
    define rs' where "rs' = fold (swapIfHigher i) [i + 1 ..< k] rs"
    from Suc True have IH: "length rs' = length rs" "mset rs' = mset rs" "take i rs' = take i rs"
      "\<forall>j. i < j \<and> j < k \<longrightarrow> Priority (rs' ! j) \<le> Priority (rs' ! i)"
      by (simp_all add: rs'_def Let_def)
    have upt: "[i + 1 ..< Suc k] = [i + 1 ..< k] @ [k]" using True by simp
    have res: "fold (swapIfHigher i) [i + 1 ..< Suc k] rs = swapIfHigher i k rs'"
      unfolding upt by (simp add: rs'_def)
    have kl: "k < length rs'" "i < length rs'" using Suc.prems IH by simp_all
    have a: "length (swapIfHigher i k rs') = length rs" using IH by simp
    have b: "mset (swapIfHigher i k rs') = mset rs" using IH kl by (simp add: mset_swapIfHigher)
    have c: "take i (swapIfHigher i k rs') = take i rs" using IH True
      by (simp add: swapIfHigher_def)
    have d: "\<forall>j. i < j \<and> j < Suc k \<longrightarrow> Priority (swapIfHigher i k rs' ! j) \<le> Priority (swapIfHigher i k rs' ! i)"
    proof (intro allI impI)
      fix j assume j: "i < j \<and> j < Suc k"
      show "Priority (swapIfHigher i k rs' ! j) \<le> Priority (swapIfHigher i k rs' ! i)"
      proof (cases "Priority (rs' ! k) > Priority (rs' ! i)")
        case sw: True
        then have eq: "swapIfHigher i k rs' = rs'[i := rs' ! k, k := rs' ! i]"
          by (simp add: swapIfHigher_def)
        show ?thesis
        proof (cases "j = k")
          case True
          then show ?thesis using sw kl \<open>i < k\<close> by (simp add: eq nth_list_update)
        next
          case False
          with j have "j < k" by simp
          with j IH(4) have "Priority (rs' ! j) \<le> Priority (rs' ! i)" by simp
          then show ?thesis using sw kl \<open>i < k\<close> j \<open>j < k\<close> by (simp add: eq nth_list_update)
        qed
      next
        case nsw: False
        then have eq: "swapIfHigher i k rs' = rs'" by (simp add: swapIfHigher_def)
        show ?thesis
        proof (cases "j = k")
          case True
          then show ?thesis using nsw by (simp add: eq)
        next
          case False
          with j have "j < k" by simp
          with j IH(4) show ?thesis by (simp add: eq)
        qed
      qed
    qed
    show ?thesis unfolding res Let_def using a b c d by blast
  qed
qed

lemma sortInner_props:
  assumes "i < length rs"
  shows "length (sortInner i rs) = length rs \<and> mset (sortInner i rs) = mset rs \<and>
        take i (sortInner i rs) = take i rs \<and>
        (\<forall>j. i < j \<and> j < length rs \<longrightarrow> Priority (sortInner i rs ! j) \<le> Priority (sortInner i rs ! i))"
proof (cases "Suc i < length rs")
  case True
  with inner_inv[of i rs "length rs"] assms show ?thesis
    by (simp add: sortInner_def Let_def)
next
  case False
  then have "sortInner i rs = rs" by (simp add: sortInner_def)
  with False show ?thesis by auto
qed

lemma outer_inv:
  "k \<le> length rs \<Longrightarrow>
   (let rs' = fold sortInner [0 ..< k] rs in
      length rs' = length rs \<and> mset rs' = mset rs \<and>
      (\<forall>a b. a < k \<and> a < b \<and> b < length rs \<longrightarrow> Priority (rs' ! b) \<le> Priority (rs' ! a)))"
proof (induction k)
  case 0
  then show ?case by simp
next
  case (Suc k)
  define rs' where "rs' = fold sortInner [0 ..< k] rs"
  from Suc have IH: "length rs' = length rs" "mset rs' = mset rs"
    "\<forall>a b. a < k \<and> a < b \<and> b < length rs \<longrightarrow> Priority (rs' ! b) \<le> Priority (rs' ! a)"
    by (simp_all add: rs'_def Let_def)
  have res: "fold sortInner [0 ..< Suc k] rs = sortInner k rs'" by (simp add: rs'_def)
  have kl: "k < length rs'" using Suc.prems IH by simp
  note P = sortInner_props[OF kl]
  define rs'' where "rs'' = sortInner k rs'"
  have len: "length rs'' = length rs" and ms: "mset rs'' = mset rs'" and tk: "take k rs'' = take k rs'"
    and mx: "\<forall>j. k < j \<and> j < length rs \<longrightarrow> Priority (rs'' ! j) \<le> Priority (rs'' ! k)"
    using P IH by (simp_all add: rs''_def)
  have dr: "mset (drop k rs'') = mset (drop k rs')"
  proof -
    have "mset (take k rs'') + mset (drop k rs'') = mset (take k rs') + mset (drop k rs')"
      using ms by (metis append_take_drop_id mset_append)
    then show ?thesis using tk by simp
  qed
  have ord: "\<forall>a b. a < Suc k \<and> a < b \<and> b < length rs \<longrightarrow> Priority (rs'' ! b) \<le> Priority (rs'' ! a)"
  proof (intro allI impI)
    fix a b assume ab: "a < Suc k \<and> a < b \<and> b < length rs"
    show "Priority (rs'' ! b) \<le> Priority (rs'' ! a)"
    proof (cases "a = k")
      case True
      then show ?thesis using mx ab by simp
    next
      case False
      with ab have ak: "a < k" by simp
      have ra: "rs'' ! a = rs' ! a" using ak tk by (metis nth_take)
      show ?thesis
      proof (cases "b < k")
        case True
        then have "rs'' ! b = rs' ! b" using tk by (metis nth_take)
        then show ?thesis using ra IH(3) ak ab by simp
      next
        case False
        then have kb: "k \<le> b" by simp
        have "b < length rs''" using ab len by simp
        then have "drop k rs'' ! (b - k) = rs'' ! b" "b - k < length (drop k rs'')"
          using kb by simp_all
        then have "rs'' ! b \<in> set (drop k rs'')" by (metis nth_mem)
        then have "rs'' ! b \<in> set (drop k rs')" using dr by (metis set_mset_mset)
        then obtain d where d: "d < length (drop k rs')" "drop k rs' ! d = rs'' ! b"
          by (metis in_set_conv_nth)
        then have c: "k \<le> k + d" "k + d < length rs'" "rs' ! (k + d) = rs'' ! b"
          by simp_all
        from IH(3) have "a < k \<and> a < k + d \<and> k + d < length rs \<longrightarrow> Priority (rs' ! (k + d)) \<le> Priority (rs' ! a)"
          by blast
        then show ?thesis using ra IH(1) ak c by simp
      qed
    qed
  qed
  show ?case unfolding res Let_def using len ms IH(2) ord by (simp add: rs''_def)
qed

lemma sortRules_sorted: "sorted_wrt (\<lambda>a b. Priority b \<le> Priority a) (sortRules rs)"
  using outer_inv[of "length rs" rs]
  by (simp add: sortRules_def Let_def sorted_wrt_iff_nth_less)

lemma sortRules_mset: "mset (sortRules rs) = mset rs"
  using outer_inv[of "length rs" rs] by (simp add: sortRules_def Let_def)

subsection \<open>Matching\<close>

lemma scanObjects_length: "length (scanObjects objs i u mt need) \<le> 1"
  by (induction objs i u mt need rule: scanObjects.induct) auto

lemma scanObjects_sound:
  "mt' \<in> set (scanObjects objs i u mt need) \<Longrightarrow>
   \<exists>new. mt' = mt @ new \<and> (\<forall>idx \<in> set new. i \<le> idx \<and> idx < i + length objs \<and> idx \<notin> u) \<and>
      sorted_wrt (<) new \<and> distinct (map (\<lambda>idx. Type (objs ! (idx - i))) new) \<and>
      (\<lambda>idx. Type (objs ! (idx - i))) ` set new = need"
proof (induction objs i u mt need rule: scanObjects.induct)
  case (1 i u mt need)
  then show ?case by simp
next
  case (2 obj objs i u mt need)
  have shift: "\<And>new. (\<forall>idx \<in> set new. i + 1 \<le> idx) \<Longrightarrow>
      map (\<lambda>idx. Type ((obj # objs) ! (idx - i))) new = map (\<lambda>idx. Type (objs ! (idx - (i + 1)))) new"
  proof (rule map_cong)
    fix new :: "nat list" and x
    assume a: "\<forall>idx \<in> set new. i + 1 \<le> idx" and x: "x \<in> set new"
    then have "x - i = Suc (x - (i + 1))" by fastforce
    then show "Type ((obj # objs) ! (x - i)) = Type (objs ! (x - (i + 1)))" by simp
  qed simp
  show ?case
  proof (cases "i \<in> u")
    case True
    with 2 obtain new where n: "mt' = mt @ new" "\<forall>idx \<in> set new. i + 1 \<le> idx \<and> idx < i + 1 + length objs \<and> idx \<notin> u"
      "sorted_wrt (<) new" "distinct (map (\<lambda>idx. Type (objs ! (idx - (i + 1)))) new)"
      "(\<lambda>idx. Type (objs ! (idx - (i + 1)))) ` set new = need"
      by auto
    from n(2) have sh: "map (\<lambda>idx. Type ((obj # objs) ! (idx - i))) new = map (\<lambda>idx. Type (objs ! (idx - (i + 1)))) new"
      by (intro shift) simp
    have "(\<lambda>idx. Type ((obj # objs) ! (idx - i))) ` set new = need"
      using n(5) sh by (metis list.set_map)
    moreover have "distinct (map (\<lambda>idx. Type ((obj # objs) ! (idx - i))) new)"
      unfolding sh by (rule n(4))
    moreover have "\<forall>idx \<in> set new. i \<le> idx \<and> idx < i + length (obj # objs) \<and> idx \<notin> u"
      using n(2) by auto
    ultimately show ?thesis using n(1,3) by blast
  next
    case notused: False
    show ?thesis
    proof (cases "Type obj \<in> need")
      case False
      with 2 notused obtain new where n: "mt' = mt @ new" "\<forall>idx \<in> set new. i + 1 \<le> idx \<and> idx < i + 1 + length objs \<and> idx \<notin> u"
        "sorted_wrt (<) new" "distinct (map (\<lambda>idx. Type (objs ! (idx - (i + 1)))) new)"
        "(\<lambda>idx. Type (objs ! (idx - (i + 1)))) ` set new = need"
        by auto
      from n(2) have sh: "map (\<lambda>idx. Type ((obj # objs) ! (idx - i))) new = map (\<lambda>idx. Type (objs ! (idx - (i + 1)))) new"
        by (intro shift) simp
      have "(\<lambda>idx. Type ((obj # objs) ! (idx - i))) ` set new = need"
        using n(5) sh by (metis list.set_map)
      moreover have "distinct (map (\<lambda>idx. Type ((obj # objs) ! (idx - i))) new)"
        unfolding sh by (rule n(4))
      moreover have "\<forall>idx \<in> set new. i \<le> idx \<and> idx < i + length (obj # objs) \<and> idx \<notin> u"
        using n(2) by auto
      ultimately show ?thesis using n(1,3) by blast
    next
      case inneed: True
      show ?thesis
      proof (cases "need - {Type obj} = {}")
        case True
        with 2 notused inneed have "mt' = mt @ [i]" by simp
        moreover from True inneed have "need = {Type obj}" by auto
        ultimately show ?thesis using notused by (intro exI[of _ "[i]"]) simp
      next
        case False
        with 2 notused inneed obtain new where n: "mt' = (mt @ [i]) @ new"
          "\<forall>idx \<in> set new. i + 1 \<le> idx \<and> idx < i + 1 + length objs \<and> idx \<notin> u"
          "sorted_wrt (<) new" "distinct (map (\<lambda>idx. Type (objs ! (idx - (i + 1)))) new)"
          "(\<lambda>idx. Type (objs ! (idx - (i + 1)))) ` set new = need - {Type obj}"
          by auto
        from n(2) have sh: "map (\<lambda>idx. Type ((obj # objs) ! (idx - i))) new = map (\<lambda>idx. Type (objs ! (idx - (i + 1)))) new"
          by (intro shift) simp
        have im: "(\<lambda>idx. Type ((obj # objs) ! (idx - i))) ` set new = need - {Type obj}"
          using n(5) sh by (metis list.set_map)
        have di: "distinct (map (\<lambda>idx. Type ((obj # objs) ! (idx - i))) new)"
          unfolding sh by (rule n(4))
        have a: "mt' = mt @ (i # new)" using n(1) by simp
        have b: "\<forall>idx \<in> set (i # new). i \<le> idx \<and> idx < i + length (obj # objs) \<and> idx \<notin> u"
          using n(2) notused by auto
        have c: "sorted_wrt (<) (i # new)" using n(2,3) by auto
        have ni: "Type obj \<notin> (\<lambda>idx. Type ((obj # objs) ! (idx - i))) ` set new"
          unfolding im by simp
        have d: "distinct (map (\<lambda>idx. Type ((obj # objs) ! (idx - i))) (i # new))"
          using di ni by simp
        have e: "(\<lambda>idx. Type ((obj # objs) ! (idx - i))) ` set (i # new) = need"
          using inneed by (simp add: im insert_absorb)
        show ?thesis using a b c d e by blast
      qed
    qed
  qed
qed

lemma findMatches_length: "length (findMatches m rule u) \<le> 1"
  using scanObjects_length[of "Objects m" 0 u "[]" "set (InputTypes rule)"]
  by (simp add: findMatches_def)

lemma findMatches_sound:
  assumes "mt \<in> set (findMatches m rule u)"
  shows "(\<forall>idx \<in> set mt. idx < length (Objects m) \<and> idx \<notin> u) \<and> sorted_wrt (<) mt \<and>
         distinct (map (\<lambda>idx. Type (Objects m ! idx)) mt) \<and>
         (\<lambda>idx. Type (Objects m ! idx)) ` set mt = set (InputTypes rule)"
proof -
  from assms have "mt \<in> set (scanObjects (Objects m) 0 u [] (set (InputTypes rule)))"
    by (auto simp: findMatches_def split: if_splits)
  from scanObjects_sound[OF this] show ?thesis by auto
qed

lemma findMatches_cases:
  "findMatches m rule u = [] \<or> (\<exists>mt. findMatches m rule u = [mt])"
  using findMatches_length[of m rule u]
  by (cases "findMatches m rule u") (auto simp: Suc_le_eq)

lemma remainingObjects_nths:
  "remainingObjects u i objs = nths objs {j. j + i \<notin> u}"
  by (induction objs arbitrary: i) (auto simp: nths_Cons)

text \<open>The scan finds a match whenever it can, and takes the first free object of each type.\<close>

lemma scanObjects_complete:
  "need \<noteq> {} \<Longrightarrow>
   (\<forall>t \<in> need. \<exists>k < length objs. i + k \<notin> u \<and> Type (objs ! k) = t) \<Longrightarrow>
   \<exists>mt'. scanObjects objs i u mt need = [mt']"
proof (induction objs arbitrary: i mt need)
  case Nil
  then show ?case by auto
next
  case (Cons obj objs)
  have shift: "\<forall>t \<in> need'. \<exists>k < length objs. (i + 1) + k \<notin> u \<and> Type (objs ! k) = t"
    if sub: "need' \<subseteq> need" and no0: "\<And>t. t \<in> need' \<Longrightarrow> i \<in> u \<or> Type obj \<noteq> t" for need'
  proof
    fix t assume t: "t \<in> need'"
    with sub Cons.prems(2) obtain k where k: "k < length (obj # objs)" "i + k \<notin> u"
      "Type ((obj # objs) ! k) = t" by blast
    have "k \<noteq> 0"
    proof
      assume "k = 0"
      with k have "i \<notin> u" "Type obj = t" by simp_all
      with no0[OF t] show False by simp
    qed
    then obtain k' where k': "k = Suc k'" by (cases k) auto
    with k show "\<exists>k < length objs. (i + 1) + k \<notin> u \<and> Type (objs ! k) = t"
      by (intro exI[of _ k']) simp
  qed
  show ?case
  proof (cases "i \<in> u")
    case True
    have "\<forall>t \<in> need. \<exists>k < length objs. (i + 1) + k \<notin> u \<and> Type (objs ! k) = t"
      by (rule shift) (simp_all add: True)
    from Cons.IH[OF Cons.prems(1) this, of mt] show ?thesis using True by simp
  next
    case notused: False
    show ?thesis
    proof (cases "Type obj \<in> need")
      case False
      have "\<forall>t \<in> need. \<exists>k < length objs. (i + 1) + k \<notin> u \<and> Type (objs ! k) = t"
        by (rule shift) (use False in auto)
      from Cons.IH[OF Cons.prems(1) this, of mt] show ?thesis using False notused by simp
    next
      case inneed: True
      show ?thesis
      proof (cases "need - {Type obj} = {}")
        case True
        then show ?thesis using inneed notused by simp
      next
        case False
        have "\<forall>t \<in> need - {Type obj}. \<exists>k < length objs. (i + 1) + k \<notin> u \<and> Type (objs ! k) = t"
          by (rule shift) auto
        from Cons.IH[OF False this, of "mt @ [i]"] show ?thesis using False inneed notused by simp
      qed
    qed
  qed
qed

lemma scanObjects_first:
  "mt' \<in> set (scanObjects objs i u mt need) \<Longrightarrow>
   \<exists>new. mt' = mt @ new \<and>
     (\<forall>idx \<in> set new. \<forall>j. i \<le> j \<and> j < idx \<and> j \<notin> u \<longrightarrow>
        Type (objs ! (j - i)) \<noteq> Type (objs ! (idx - i)))"
proof (induction objs i u mt need rule: scanObjects.induct)
  case (1 i u mt need)
  then show ?case by simp
next
  case (2 obj objs i u mt need)
  have lift: "\<forall>idx \<in> set new. \<forall>j. i \<le> j \<and> j < idx \<and> j \<notin> u \<longrightarrow>
        Type ((obj # objs) ! (j - i)) \<noteq> Type ((obj # objs) ! (idx - i))"
    if rec: "\<forall>idx \<in> set new. \<forall>j. i + 1 \<le> j \<and> j < idx \<and> j \<notin> u \<longrightarrow>
        Type (objs ! (j - (i + 1))) \<noteq> Type (objs ! (idx - (i + 1)))"
     and ge: "\<forall>idx \<in> set new. i + 1 \<le> idx"
     and head: "\<forall>idx \<in> set new. i \<notin> u \<longrightarrow> Type obj \<noteq> Type (objs ! (idx - (i + 1)))" for new
  proof (intro ballI allI impI)
    fix idx j assume idx: "idx \<in> set new" and j: "i \<le> j \<and> j < idx \<and> j \<notin> u"
    from ge idx have g: "i + 1 \<le> idx" by blast
    then have ei: "(obj # objs) ! (idx - i) = objs ! (idx - (i + 1))"
      by (metis Suc_diff_le add.commute diff_Suc_Suc nth_Cons_Suc plus_1_eq_Suc Suc_le_eq less_imp_le_nat Suc_eq_plus1)
    show "Type ((obj # objs) ! (j - i)) \<noteq> Type ((obj # objs) ! (idx - i))"
    proof (cases "j = i")
      case True
      then show ?thesis using head idx j by (simp add: ei)
    next
      case False
      with j have jg: "i + 1 \<le> j" by simp
      then have ej: "(obj # objs) ! (j - i) = objs ! (j - (i + 1))"
        by (metis Suc_diff_le add.commute diff_Suc_Suc nth_Cons_Suc plus_1_eq_Suc Suc_le_eq less_imp_le_nat Suc_eq_plus1)
      show ?thesis using rec idx j jg by (simp add: ei ej)
    qed
  qed
  note S = scanObjects_sound
  show ?case
  proof (cases "i \<in> u")
    case True
    with 2 have mem: "mt' \<in> set (scanObjects objs (i + 1) u mt need)" by simp
    from "2.IH"(1)[OF True mem] obtain new where n: "mt' = mt @ new"
      "\<forall>idx \<in> set new. \<forall>j. i + 1 \<le> j \<and> j < idx \<and> j \<notin> u \<longrightarrow>
        Type (objs ! (j - (i + 1))) \<noteq> Type (objs ! (idx - (i + 1)))" by blast
    from S[OF mem] n(1) have ge: "\<forall>idx \<in> set new. i + 1 \<le> idx" by auto
    have "\<forall>idx \<in> set new. \<forall>j. i \<le> j \<and> j < idx \<and> j \<notin> u \<longrightarrow>
        Type ((obj # objs) ! (j - i)) \<noteq> Type ((obj # objs) ! (idx - i))"
      by (rule lift[OF n(2) ge]) (simp add: True)
    with n(1) show ?thesis by blast
  next
    case notused: False
    show ?thesis
    proof (cases "Type obj \<in> need")
      case False
      with 2 notused have mem: "mt' \<in> set (scanObjects objs (i + 1) u mt need)" by simp
      from "2.IH"(3)[OF notused False mem] obtain new where n: "mt' = mt @ new"
        "\<forall>idx \<in> set new. \<forall>j. i + 1 \<le> j \<and> j < idx \<and> j \<notin> u \<longrightarrow>
          Type (objs ! (j - (i + 1))) \<noteq> Type (objs ! (idx - (i + 1)))" by blast
      from S[OF mem] n(1) have ge: "\<forall>idx \<in> set new. i + 1 \<le> idx"
        and im: "(\<lambda>idx. Type (objs ! (idx - (i + 1)))) ` set new = need" by auto
      have head: "\<forall>idx \<in> set new. i \<notin> u \<longrightarrow> Type obj \<noteq> Type (objs ! (idx - (i + 1)))"
        using im False by auto
      have "\<forall>idx \<in> set new. \<forall>j. i \<le> j \<and> j < idx \<and> j \<notin> u \<longrightarrow>
          Type ((obj # objs) ! (j - i)) \<noteq> Type ((obj # objs) ! (idx - i))"
        by (rule lift[OF n(2) ge head])
      with n(1) show ?thesis by blast
    next
      case inneed: True
      show ?thesis
      proof (cases "need - {Type obj} = {}")
        case True
        with 2 notused inneed have "mt' = mt @ [i]" by simp
        then show ?thesis by (intro exI[of _ "[i]"]) simp
      next
        case False
        with 2 notused inneed have mem: "mt' \<in> set (scanObjects objs (i + 1) u (mt @ [i]) (need - {Type obj}))"
          by simp
        from "2.IH"(2)[OF notused inneed False mem] obtain new where n: "mt' = (mt @ [i]) @ new"
          "\<forall>idx \<in> set new. \<forall>j. i + 1 \<le> j \<and> j < idx \<and> j \<notin> u \<longrightarrow>
            Type (objs ! (j - (i + 1))) \<noteq> Type (objs ! (idx - (i + 1)))" by blast
        from S[OF mem] n(1) have ge: "\<forall>idx \<in> set new. i + 1 \<le> idx"
          and im: "(\<lambda>idx. Type (objs ! (idx - (i + 1)))) ` set new = need - {Type obj}" by auto
        have head: "\<forall>idx \<in> set new. i \<notin> u \<longrightarrow> Type obj \<noteq> Type (objs ! (idx - (i + 1)))"
          using im by auto
        have l: "\<forall>idx \<in> set new. \<forall>j. i \<le> j \<and> j < idx \<and> j \<notin> u \<longrightarrow>
            Type ((obj # objs) ! (j - i)) \<noteq> Type ((obj # objs) ! (idx - i))"
          by (rule lift[OF n(2) ge head])
        have "\<forall>idx \<in> set (i # new). \<forall>j. i \<le> j \<and> j < idx \<and> j \<notin> u \<longrightarrow>
            Type ((obj # objs) ! (j - i)) \<noteq> Type ((obj # objs) ! (idx - i))"
        proof (intro ballI allI impI)
          fix idx j assume a: "idx \<in> set (i # new)" "i \<le> j \<and> j < idx \<and> j \<notin> u"
          then have "idx \<noteq> i" by auto
          with a(1) have "idx \<in> set new" by simp
          with l a(2) show "Type ((obj # objs) ! (j - i)) \<noteq> Type ((obj # objs) ! (idx - i))" by blast
        qed
        moreover have "mt' = mt @ (i # new)" using n(1) by simp
        ultimately show ?thesis by blast
      qed
    qed
  qed
qed

lemma findMatches_complete:
  assumes "InputTypes rule \<noteq> []"
    and "\<forall>t \<in> set (InputTypes rule). \<exists>idx < length (Objects m). idx \<notin> u \<and> Type (Objects m ! idx) = t"
  shows "\<exists>mt. findMatches m rule u = [mt]"
proof -
  have "set (InputTypes rule) \<noteq> {}" using assms(1) by simp
  moreover have "\<forall>t \<in> set (InputTypes rule). \<exists>k < length (Objects m). 0 + k \<notin> u \<and> Type (Objects m ! k) = t"
    using assms(2) by simp
  ultimately have "\<exists>mt'. scanObjects (Objects m) 0 u [] (set (InputTypes rule)) = [mt']"
    by (rule scanObjects_complete)
  then show ?thesis using assms(1) by (simp add: findMatches_def)
qed

lemma findMatches_first:
  assumes "mt \<in> set (findMatches m rule u)"
  shows "\<forall>idx \<in> set mt. \<forall>j. j < idx \<and> j \<notin> u \<longrightarrow> Type (Objects m ! j) \<noteq> Type (Objects m ! idx)"
proof -
  from assms have "mt \<in> set (scanObjects (Objects m) 0 u [] (set (InputTypes rule)))"
    by (auto simp: findMatches_def split: if_splits)
  from scanObjects_first[OF this] show ?thesis by auto
qed

subsection \<open>The rule loop\<close>

lemma applyRule_cases:
  "(findMatches m rule (usedObjects s) = [] \<and> applyRule m rule s = s) \<or>
   (\<exists>mt. findMatches m rule (usedObjects s) = [mt] \<and> applyRule m rule s = applyMatch m rule mt s)"
  using findMatches_cases[of m rule "usedObjects s"] by (auto simp: applyRule_def)

lemma findMatches_firingOK:
  assumes "findMatches m rule u = [mt]"
  shows "firingOK m u (rule, mt)"
proof -
  have mem: "mt \<in> set (findMatches m rule u)" using assms by simp
  note S = findMatches_sound[OF mem]
  have ne: "InputTypes rule \<noteq> []" using assms by (auto simp: findMatches_def split: if_splits)
  then have "set (InputTypes rule) \<noteq> {}" by simp
  with S have "set mt \<noteq> {}" by (metis image_is_empty)
  then have "mt \<noteq> []" by auto
  with S ne show ?thesis by (auto simp: firingOK_def)
qed

lemma applyRules_fold:
  "\<exists>fs. fired (fold (applyRule m) rs s) = fired s @ fs \<and> subseq (map fst fs) rs \<and>
      usedObjects (fold (applyRule m) rs s) = usedObjects s \<union> \<Union> (set (map (set \<circ> snd) fs)) \<and>
      newObjects (fold (applyRule m) rs s) =
        newObjects s @ concat (map (\<lambda>f. ruleOutput m (fst f) (snd f)) fs) \<and>
      (\<forall>f \<in> set fs. firingOK m (usedObjects s) f) \<and> distinct (concat (map snd fs))"
proof (induction rs arbitrary: s)
  case Nil
  show ?case by (intro exI[of _ "[]"]) simp
next
  case (Cons r rs)
  from applyRule_cases[of m r s] show ?case
  proof (elim disjE conjE exE)
    assume a: "applyRule m r s = s"
    from Cons[of s] obtain fs where fs: "fired (fold (applyRule m) rs s) = fired s @ fs"
      "subseq (map fst fs) rs"
      "usedObjects (fold (applyRule m) rs s) = usedObjects s \<union> \<Union> (set (map (set \<circ> snd) fs))"
      "newObjects (fold (applyRule m) rs s) = newObjects s @ concat (map (\<lambda>f. ruleOutput m (fst f) (snd f)) fs)"
      "\<forall>f \<in> set fs. firingOK m (usedObjects s) f" "distinct (concat (map snd fs))"
      by blast
    have "subseq (map fst fs) (r # rs)" using fs(2) by (rule list_emb_Cons)
    then show ?thesis using fs a by (intro exI[of _ fs]) simp
  next
    fix mt assume fm: "findMatches m r (usedObjects s) = [mt]" and a: "applyRule m r s = applyMatch m r mt s"
    define s1 where "s1 = applyMatch m r mt s"
    have s1: "usedObjects s1 = usedObjects s \<union> set mt" "newObjects s1 = newObjects s @ ruleOutput m r mt"
      "fired s1 = fired s @ [(r, mt)]"
      by (simp_all add: s1_def applyMatch_def)
    from Cons[of s1] obtain fs where fs: "fired (fold (applyRule m) rs s1) = fired s1 @ fs"
      "subseq (map fst fs) rs"
      "usedObjects (fold (applyRule m) rs s1) = usedObjects s1 \<union> \<Union> (set (map (set \<circ> snd) fs))"
      "newObjects (fold (applyRule m) rs s1) = newObjects s1 @ concat (map (\<lambda>f. ruleOutput m (fst f) (snd f)) fs)"
      "\<forall>f \<in> set fs. firingOK m (usedObjects s1) f" "distinct (concat (map snd fs))"
      by blast
    have ok: "firingOK m (usedObjects s) (r, mt)" using fm by (rule findMatches_firingOK)
    have mem: "mt \<in> set (findMatches m r (usedObjects s))" using fm by simp
    have dmt: "distinct mt" using findMatches_sound[OF mem] by (simp add: strict_sorted_iff)
    have e1: "fired (fold (applyRule m) (r # rs) s) = fired s @ ((r, mt) # fs)"
      using fs(1) s1(3) a by (simp add: s1_def)
    have e2: "subseq (map fst ((r, mt) # fs)) (r # rs)" using fs(2) by simp
    have e3: "usedObjects (fold (applyRule m) (r # rs) s) = usedObjects s \<union> \<Union> (set (map (set \<circ> snd) ((r, mt) # fs)))"
      using fs(3) s1(1) a by (auto simp: s1_def)
    have e4: "newObjects (fold (applyRule m) (r # rs) s) =
        newObjects s @ concat (map (\<lambda>f. ruleOutput m (fst f) (snd f)) ((r, mt) # fs))"
      using fs(4) s1(2) a by (simp add: s1_def)
    have e5: "\<forall>f \<in> set ((r, mt) # fs). firingOK m (usedObjects s) f"
      using fs(5) ok s1(1) by (auto simp: firingOK_def)
    have dis: "\<forall>f \<in> set fs. set (snd f) \<inter> set mt = {}"
      using fs(5) s1(1) by (auto simp: firingOK_def)
    have e6: "distinct (concat (map snd ((r, mt) # fs)))"
      using fs(6) dmt dis by auto
    show ?thesis using e1 e2 e3 e4 e5 e6 by blast
  qed
qed

lemma applyRules_char:
  "subseq (map fst (fired (applyRules m))) (sortRules (Rules m)) \<and>
   usedObjects (applyRules m) = \<Union> (set (map (set \<circ> snd) (fired (applyRules m)))) \<and>
   newObjects (applyRules m) = concat (map (\<lambda>f. ruleOutput m (fst f) (snd f)) (fired (applyRules m))) \<and>
   (\<forall>f \<in> set (fired (applyRules m)). firingOK m {} f) \<and>
   distinct (concat (map snd (fired (applyRules m))))"
  using applyRules_fold[of m "sortRules (Rules m)" "\<lparr> usedObjects = {}, newObjects = [], fired = [] \<rparr>"]
  by (auto simp: applyRules_def)

lemma Evolve_Objects:
  "Objects (Evolve m) = nths (Objects m) (- usedObjects (applyRules m)) @ newObjects (applyRules m)"
proof -
  have "{j. j + 0 \<notin> usedObjects (applyRules m)} = - usedObjects (applyRules m)" by auto
  then show ?thesis by (simp add: Evolve_def Let_def remainingObjects_nths)
qed

subsection \<open>Binary64 rounding\<close>

lemma floor_log2_eq:
  assumes "2 powi k \<le> x" "x < 2 powi (k + 1)"
  shows "\<lfloor>log 2 x\<rfloor> = k"
proof -
  have pos: "0 < x" using assms(1) zero_less_power_int[of "2::real" k] by linarith
  have a: "(2::real) powr real_of_int k = 2 powi k" by (rule powr_real_of_int') simp_all
  have b: "(2::real) powr real_of_int (k + 1) = 2 powi (k + 1)" by (rule powr_real_of_int') simp_all
  have "2 powr real_of_int k \<le> x \<and> x < 2 powr (real_of_int k + 1)"
    using assms a b by simp
  then show ?thesis using floor_log_eq_powr_iff[of x 2 k] pos by simp
qed

lemma round64_at:
  assumes "x \<noteq> 0" "2 powi k \<le> \<bar>x\<bar>" "\<bar>x\<bar> < 2 powi (k + 1)"
  shows "round64 x =
     (let ulp = 2 powi (max k (- 1022) - 52);
          y = of_int (roundHalfEven (\<bar>x\<bar> / ulp)) * ulp
      in if y \<ge> 2 powi 1024 then (if x > 0 then PosInf else NegInf)
         else Finite (sgn x * y))"
  using assms(1) floor_log2_eq[OF assms(2,3)] by (simp add: round64_def)

lemma round64_1: "round64 1 = Finite 1"
  using round64_at[of 1 0] by (simp add: roundHalfEven_def power_int_minus)

lemma round64_half: "round64 (1/2) = Finite (1/2)"
  using round64_at[of "1/2" "-1"] by (simp add: roundHalfEven_def power_int_minus)

lemma round64_1_2: "round64 (6/5) = Finite (5404319552844595 / 4503599627370496)"
  using round64_at[of "6/5" 0] by (simp add: roundHalfEven_def power_int_minus)

lemma roundHalfEven_of_int [simp]: "roundHalfEven (of_int n) = n"
  by (simp add: roundHalfEven_def)

lemma roundHalfEven_bounds: "\<lfloor>q\<rfloor> \<le> roundHalfEven q \<and> roundHalfEven q \<le> \<lfloor>q\<rfloor> + 1"
  by (simp add: roundHalfEven_def Let_def)

lemma floor_log2_le:
  assumes "0 < y" "y < 2 powi (m + 1)"
  shows "\<lfloor>log 2 y\<rfloor> \<le> m"
proof -
  have b: "(2::real) powr real_of_int (m + 1) = 2 powi (m + 1)" by (rule powr_real_of_int') simp_all
  have "log 2 y < log 2 (2 powr real_of_int (m + 1))"
    using assms b by (simp del: log_powr_cancel)
  then have "log 2 y < real_of_int (m + 1)" by simp
  then have "\<lfloor>log 2 y\<rfloor> < m + 1" by (simp only: floor_less_iff)
  then show ?thesis by simp
qed

text \<open>A value with at most 53 significant bits at an admissible exponent is kept by rounding.\<close>

lemma round64_exact:
  assumes n: "0 < n" "n < 2 ^ 53" and e: "- 1022 \<le> e" and norm: "2 ^ 52 \<le> n \<or> e = - 1022"
    and fin: "of_int n * 2 powi (e - 52) < (2::real) powi 1024" and s: "s = 1 \<or> s = - 1"
  shows "round64 (s * (of_int n * 2 powi (e - 52))) = Finite (s * (of_int n * 2 powi (e - 52)))"
proof -
  define ulp :: real where "ulp = 2 powi (e - 52)"
  define a :: real where "a = of_int n * ulp"
  have up: "0 < ulp" by (simp add: ulp_def)
  have apos: "0 < a" using n(1) up by (simp add: a_def)
  have xa: "\<bar>s * a\<bar> = a" using s apos by auto
  have x0: "s * a \<noteq> 0" using s apos by auto
  have sg: "sgn (s * a) = s" using s apos by (auto simp: sgn_mult)
  have ulpe: "ulp * 2 ^ 52 = 2 powi e"
  proof -
    have "(2::real) powi e = 2 powi ((e - 52) + 52)" by simp
    also have "\<dots> = 2 powi (e - 52) * 2 powi 52" by (rule power_int_add) simp
    finally show ?thesis by (simp add: ulp_def)
  qed
  have hi: "a < 2 powi (e + 1)"
  proof -
    have "a < 2 ^ 53 * ulp" using n(2) up by (simp add: a_def)
    also have "\<dots> = 2 * (ulp * 2 ^ 52)" by simp
    also have "\<dots> = 2 * 2 powi e" by (simp only: ulpe)
    also have "\<dots> = 2 powi (e + 1)" by (simp add: power_int_add)
    finally show ?thesis .
  qed
  have mx: "max \<lfloor>log 2 a\<rfloor> (- 1022) = e"
  proof (cases "2 ^ 52 \<le> n")
    case True
    then have "(2::real) ^ 52 \<le> of_int n" by (metis of_int_le_iff of_int_numeral of_int_power)
    then have "ulp * 2 ^ 52 \<le> a" using up by (simp add: a_def mult.commute)
    then have lo: "2 powi e \<le> a" by (simp only: ulpe)
    have "\<lfloor>log 2 a\<rfloor> = e" using lo hi by (rule floor_log2_eq)
    then show ?thesis using e by simp
  next
    case False
    with norm have e1: "e = - 1022" by simp
    from False have "of_int n < (2::real) ^ 52" by (metis not_le of_int_less_iff of_int_numeral of_int_power)
    then have "a < ulp * 2 ^ 52" using up by (simp add: a_def mult.commute)
    then have "a < 2 powi e" by (simp only: ulpe)
    then have "a < 2 powi ((e - 1) + 1)" by simp
    then have "\<lfloor>log 2 a\<rfloor> \<le> e - 1" using apos by (intro floor_log2_le)
    then show ?thesis using e1 by simp
  qed
  have q: "a / ulp = of_int n" using up by (simp add: a_def)
  have "round64 (s * a) = Finite (s * a)"
    using x0 fin by (simp add: round64_def xa mx q sg Let_def flip: ulp_def a_def)
  then show ?thesis by (simp add: a_def ulp_def)
qed

lemma floor_log2_bounds:
  assumes "0 < a"
  shows "2 powi \<lfloor>log 2 a\<rfloor> \<le> a \<and> a < 2 powi (\<lfloor>log 2 a\<rfloor> + 1)"
proof -
  define k where "k = \<lfloor>log 2 a\<rfloor>"
  have p1: "(2::real) powr real_of_int k = 2 powi k" by (rule powr_real_of_int') simp_all
  have p2: "(2::real) powr real_of_int (k + 1) = 2 powi (k + 1)" by (rule powr_real_of_int') simp_all
  have "2 powr real_of_int k \<le> a \<and> a < 2 powr (real_of_int k + 1)"
    using floor_log_eq_powr_iff[of a 2 k] assms by (simp add: k_def)
  then show ?thesis using p1 p2 by (simp add: k_def)
qed

lemma round64_cases:
  assumes "x \<noteq> 0"
  shows "\<exists>N e. - 1022 \<le> e \<and> 0 \<le> N \<and> N \<le> 2 ^ 53 \<and> (e \<noteq> - 1022 \<longrightarrow> 2 ^ 52 \<le> N) \<and>
           (1 \<le> \<bar>x\<bar> \<longrightarrow> 2 ^ 52 \<le> N) \<and>
           round64 x =
             (if of_int N * 2 powi (e - 52) \<ge> (2::real) powi 1024
              then (if x > 0 then PosInf else NegInf)
              else Finite (sgn x * (of_int N * 2 powi (e - 52))))"
proof -
  define a where "a = \<bar>x\<bar>"
  define k where "k = \<lfloor>log 2 a\<rfloor>"
  define e where "e = max k (- 1022)"
  define ulp :: real where "ulp = 2 powi (e - 52)"
  define q where "q = a / ulp"
  define N where "N = roundHalfEven q"
  have apos: "0 < a" using assms by (simp add: a_def)
  have up: "0 < ulp" by (simp add: ulp_def)
  have kb: "2 powi k \<le> a" "a < 2 powi (k + 1)" using floor_log2_bounds[OF apos] by (simp_all add: k_def)
  have e1: "- 1022 \<le> e" by (simp add: e_def)
  have ulpe: "ulp * 2 ^ 52 = 2 powi e"
  proof -
    have "(2::real) powi e = 2 powi ((e - 52) + 52)" by simp
    also have "\<dots> = 2 powi (e - 52) * 2 powi 52" by (rule power_int_add) simp
    finally show ?thesis by (simp add: ulp_def)
  qed
  have qpos: "0 \<le> q" using apos up by (simp add: q_def)
  have "a < 2 powi (e + 1)"
  proof -
    have "(2::real) powi (k + 1) \<le> 2 powi (e + 1)" by (rule power_int_increasing) (simp_all add: e_def)
    with kb(2) show ?thesis by simp
  qed
  also have "\<dots> = 2 * 2 powi e" by (simp add: power_int_add)
  also have "\<dots> = 2 * (ulp * 2 ^ 52)" by (simp only: ulpe)
  finally have "a < 2 ^ 53 * ulp" by simp
  then have qhi: "q < 2 ^ 53" using up by (simp add: q_def divide_less_eq)
  have fl0: "0 \<le> \<lfloor>q\<rfloor>" using qpos by simp
  have "\<lfloor>q\<rfloor> < 2 ^ 53"
  proof -
    have "q < of_int (2 ^ 53)" using qhi by simp
    then show ?thesis by (simp only: floor_less_iff)
  qed
  then have N53: "N \<le> 2 ^ 53" using roundHalfEven_bounds[of q] unfolding N_def by linarith
  have N0: "0 \<le> N" using roundHalfEven_bounds[of q] fl0 unfolding N_def by linarith
  have big: "2 ^ 52 \<le> N" if "- 1022 \<le> k"
  proof -
    from that have ek: "e = k" by (simp add: e_def)
    have "ulp * 2 ^ 52 \<le> a" using kb(1) unfolding ulpe ek .
    then have "2 ^ 52 \<le> q" using up by (simp add: q_def le_divide_eq mult.commute)
    then have "of_int (2 ^ 52) \<le> q" by simp
    then have "2 ^ 52 \<le> \<lfloor>q\<rfloor>" by (simp only: le_floor_iff)
    then show ?thesis using roundHalfEven_bounds[of q] unfolding N_def by linarith
  qed
  have c1: "e \<noteq> - 1022 \<longrightarrow> 2 ^ 52 \<le> N" using big by (auto simp: e_def max_def split: if_splits)
  have c2: "1 \<le> \<bar>x\<bar> \<longrightarrow> 2 ^ 52 \<le> N"
  proof
    assume "1 \<le> \<bar>x\<bar>"
    then have "0 \<le> log 2 a" by (simp add: a_def)
    then have "0 \<le> k" by (simp add: k_def)
    then show "2 ^ 52 \<le> N" using big by simp
  qed
  have r: "round64 x =
             (if of_int N * 2 powi (e - 52) \<ge> (2::real) powi 1024
              then (if x > 0 then PosInf else NegInf)
              else Finite (sgn x * (of_int N * 2 powi (e - 52))))"
    using assms by (simp add: round64_def Let_def N_def q_def ulp_def e_def k_def a_def)
  show ?thesis using e1 N0 N53 c1 c2 r by blast
qed

lemma round64_idem:
  assumes "round64 x = Finite v"
  shows "round64 v = Finite v"
proof (cases "x = 0")
  case True
  with assms show ?thesis by (simp add: round64_def)
next
  case False
  from round64_cases[OF False] obtain N e where
    b: "- 1022 \<le> e" "0 \<le> N" "N \<le> 2 ^ 53" "e \<noteq> - 1022 \<longrightarrow> 2 ^ 52 \<le> N"
    and r: "round64 x =
             (if of_int N * 2 powi (e - 52) \<ge> (2::real) powi 1024
              then (if x > 0 then PosInf else NegInf)
              else Finite (sgn x * (of_int N * 2 powi (e - 52))))" by blast
  from r assms have fin: "of_int N * 2 powi (e - 52) < (2::real) powi 1024"
    and v: "v = sgn x * (of_int N * 2 powi (e - 52))"
    by (auto split: if_splits)
  have s: "sgn x = 1 \<or> sgn x = - 1" using False by (auto simp: sgn_if)
  show ?thesis
  proof (cases "N = 0")
    case True
    then show ?thesis by (simp add: v round64_def)
  next
    case N0: False
    show ?thesis
    proof (cases "N = 2 ^ 53")
      case True
      have eq: "of_int N * 2 powi (e - 52) = of_int (2 ^ 52) * (2::real) powi ((e + 1) - 52)"
      proof -
        have "(2::real) powi ((e + 1) - 52) = 2 powi (e - 52) * 2"
          using power_int_add[of "2::real" "e - 52" 1] by (simp add: algebra_simps)
        then show ?thesis by (simp add: True)
      qed
      have "round64 (sgn x * (of_int (2 ^ 52) * 2 powi ((e + 1) - 52))) =
            Finite (sgn x * (of_int (2 ^ 52) * 2 powi ((e + 1) - 52)))"
        using b(1) fin s unfolding eq by (intro round64_exact) simp_all
      then show ?thesis by (simp only: v eq)
    next
      case False
      have "round64 (sgn x * (of_int N * 2 powi (e - 52))) = Finite (sgn x * (of_int N * 2 powi (e - 52)))"
        using b N0 False fin s by (intro round64_exact) auto
      then show ?thesis by (simp only: v)
    qed
  qed
qed

lemma round64_not_NaN: "round64 x \<noteq> NaN"
  by (simp add: round64_def Let_def)

lemma fmul_one:
  "fmul (fmul (Finite a) (Finite b)) (round64 1) = fmul (Finite a) (Finite b)"
proof (cases "round64 (a * b)")
  case (Finite v)
  then show ?thesis using round64_idem[OF Finite] by (simp add: round64_1)
next
  case PosInf
  then show ?thesis by (simp add: round64_1)
next
  case NegInf
  then show ?thesis by (simp add: round64_1)
next
  case NaN
  then show ?thesis using round64_not_NaN by simp
qed

lemma round64_of_int_nonzero:
  assumes "c \<noteq> 0"
  shows "fgt (fabs (round64 (real_of_int c))) (Finite 0)"
proof -
  have x0: "real_of_int c \<noteq> 0" using assms by simp
  have "1 \<le> \<bar>c\<bar>" using assms by simp
  then have "real_of_int 1 \<le> real_of_int \<bar>c\<bar>" by (simp only: of_int_le_iff)
  then have ge1: "1 \<le> \<bar>real_of_int c\<bar>" by simp
  from round64_cases[OF x0] ge1 obtain N e where
    b: "2 ^ 52 \<le> N"
    and r: "round64 (real_of_int c) =
             (if of_int N * 2 powi (e - 52) \<ge> (2::real) powi 1024
              then (if real_of_int c > 0 then PosInf else NegInf)
              else Finite (sgn (real_of_int c) * (of_int N * 2 powi (e - 52))))" by blast
  have "(0::int) < N" using b by (smt (verit) zero_less_power)
  then have ypos: "0 < of_int N * (2::real) powi (e - 52)" by simp
  have "\<bar>sgn (real_of_int c)\<bar> = 1" using x0 by (simp add: abs_sgn_eq)
  moreover have "\<bar>of_int N * (2::real) powi (e - 52)\<bar> = of_int N * 2 powi (e - 52)"
    using ypos by (rule abs_of_pos)
  ultimately have "\<bar>sgn (real_of_int c) * (of_int N * 2 powi (e - 52))\<bar> = of_int N * 2 powi (e - 52)"
    by (simp only: abs_mult)
  then show ?thesis using ypos by (simp add: r)
qed

lemma round64_of_int_zero: "\<not> fgt (fabs (round64 (real_of_int 0))) (Finite 0)"
  by (simp add: round64_def)

lemma round64_1_2_value: "round64 (5404319552844595 / 4503599627370496) = Finite (5404319552844595 / 4503599627370496)"
  using round64_1_2 by (rule round64_idem)

text \<open>0.4166666666666667 times 1.2 is 0.5 in binary64, although the exact product is larger.\<close>

lemma fmul_rounds_to_half:
  "fmul (fmul (Finite 1) (Finite (7505999378950827 / 18014398509481984))) (round64 1.2) = Finite 0.5 \<and>
   7505999378950827 / 18014398509481984 * (5404319552844595 / 4503599627370496) > (0.5 :: real)"
proof -
  have a: "round64 (7505999378950827 / 18014398509481984) = Finite (7505999378950827 / 18014398509481984)"
    using round64_at[of "7505999378950827 / 18014398509481984" "-2"]
    by (simp add: roundHalfEven_def power_int_minus)
  have b: "round64 (7505999378950827 / 18014398509481984 * (5404319552844595 / 4503599627370496)) = Finite 0.5"
    using round64_at[of "7505999378950827 / 18014398509481984 * (5404319552844595 / 4503599627370496)" "-1"]
    by (simp add: roundHalfEven_def power_int_minus)
  show ?thesis using a b by (simp add: round64_1_2)
qed

text \<open>So is 0.6 times 0.8333333333333334.\<close>

lemma fmul_rounds_to_half_2:
  "fmul (Finite (5404319552844595 / 9007199254740992)) (Finite (7505999378950827 / 9007199254740992)) = Finite 0.5"
  using round64_at[of "5404319552844595 / 9007199254740992 * (7505999378950827 / 9007199254740992)" "-1"]
  by (simp add: roundHalfEven_def power_int_minus)

subsection \<open>The threshold of transport\<close>

text \<open>The threshold value as the specification writes it, in binary64 arithmetic.\<close>

lemma passProb_formula:
  "passProb m obj =
     fmul (fmul (Finite (Permeability m)) (Finite (Mobility obj)))
       (if Charge obj \<noteq> 0 then round64 1.2 else round64 1.0)"
proof (cases "Charge obj = 0")
  case True
  have "\<not> fgt (fabs (round64 (real_of_int (Charge obj)))) (Finite 0)"
    unfolding True by (rule round64_of_int_zero)
  then show ?thesis using True fmul_one[of "Permeability m" "Mobility obj"]
    by (simp add: passProb_def Let_def)
next
  case False
  then have "fgt (fabs (round64 (real_of_int (Charge obj)))) (Finite 0)"
    by (rule round64_of_int_nonzero)
  then show ?thesis using False by (simp add: passProb_def Let_def)
qed

lemma passProb_one_one:
  assumes "Permeability m = 1" "Mobility obj = 1" "Charge obj \<noteq> 0"
  shows "fgt (passProb m obj) (round64 0.5)"
  using assms by (simp add: passProb_formula round64_1 round64_1_2 round64_1_2_value round64_half)

lemma passProb_mobility_zero:
  assumes "Mobility obj = 0"
  shows "\<not> fgt (passProb m obj) (round64 0.5)"
proof -
  have z: "round64 0 = Finite 0" by (simp add: round64_def)
  show ?thesis using assms
    by (cases "Charge obj = 0") (simp_all add: passProb_formula z round64_1 round64_1_2 round64_half)
qed

subsection \<open>Transport between two membranes\<close>

lemma passLoop_distinct:
  "src \<noteq> tgt \<Longrightarrow>
   passLoop src tgt objs remaining st =
     (remaining @ filter (\<lambda>obj. \<not> fgt (passProb (st src) obj) (round64 0.5)) objs,
      st(tgt := (st tgt)\<lparr>Objects := Objects (st tgt) @ filter (\<lambda>obj. fgt (passProb (st src) obj) (round64 0.5)) objs\<rparr>))"
proof (induction objs arbitrary: remaining st)
  case Nil
  then show ?case by simp
next
  case (Cons obj objs)
  show ?case
  proof (cases "fgt (passProb (st src) obj) (round64 0.5)")
    case True
    define st1 where "st1 = AddObject tgt obj st"
    have s: "st1 src = st src" using Cons.prems by (simp add: st1_def AddObject_def)
    have t: "st1 tgt = (st tgt)\<lparr>Objects := Objects (st tgt) @ [obj]\<rparr>"
      by (simp add: st1_def AddObject_def)
    have u: "\<And>X. st1(tgt := X) = st(tgt := X)" by (simp add: st1_def AddObject_def)
    have "passLoop src tgt (obj # objs) remaining st = passLoop src tgt objs remaining st1"
      using True by (simp add: st1_def)
    also have "\<dots> = (remaining @ filter (\<lambda>obj. \<not> fgt (passProb (st1 src) obj) (round64 0.5)) objs,
      st1(tgt := (st1 tgt)\<lparr>Objects := Objects (st1 tgt) @ filter (\<lambda>obj. fgt (passProb (st1 src) obj) (round64 0.5)) objs\<rparr>))"
      by (rule Cons.IH[OF Cons.prems])
    finally have e: "passLoop src tgt (obj # objs) remaining st =
      (remaining @ filter (\<lambda>obj. \<not> fgt (passProb (st1 src) obj) (round64 0.5)) objs,
      st1(tgt := (st1 tgt)\<lparr>Objects := Objects (st1 tgt) @ filter (\<lambda>obj. fgt (passProb (st1 src) obj) (round64 0.5)) objs\<rparr>))" .
    have f: "filter (\<lambda>obj. fgt (passProb (st src) obj) (round64 0.5)) (obj # objs) = obj # filter (\<lambda>obj. fgt (passProb (st src) obj) (round64 0.5)) objs"
      "filter (\<lambda>obj. \<not> fgt (passProb (st src) obj) (round64 0.5)) (obj # objs) = filter (\<lambda>obj. \<not> fgt (passProb (st src) obj) (round64 0.5)) objs"
      using True by simp_all
    show ?thesis unfolding e f s t u by (simp add: fun_upd_def)
  next
    case False
    then show ?thesis using Cons.IH[OF Cons.prems, of "remaining @ [obj]" st] by simp
  qed
qed

lemma moveObjects_distinct:
  "src \<noteq> tgt \<Longrightarrow>
   moveObjects src tgt st =
     st(tgt := (st tgt)\<lparr>Objects := Objects (st tgt) @ filter (\<lambda>obj. fgt (passProb (st src) obj) (round64 0.5)) (Objects (st src))\<rparr>,
        src := (st src)\<lparr>Objects := filter (\<lambda>obj. \<not> fgt (passProb (st src) obj) (round64 0.5)) (Objects (st src))\<rparr>)"
  by (simp add: moveObjects_def passLoop_distinct)

lemma passLoop_links:
  "passLoop src tgt objs remaining st = (r, st') \<Longrightarrow>
   Parent (st' a) = Parent (st a) \<and> Children (st' a) = Children (st a)"
proof (induction objs arbitrary: remaining st)
  case Nil
  then show ?case by simp
next
  case (Cons obj objs)
  show ?case
  proof (cases "fgt (passProb (st src) obj) (round64 0.5)")
    case True
    with Cons.prems have "passLoop src tgt objs remaining (AddObject tgt obj st) = (r, st')" by simp
    from Cons.IH[OF this] show ?thesis by (simp add: AddObject_def)
  next
    case False
    with Cons.prems have "passLoop src tgt objs (remaining @ [obj]) st = (r, st')" by simp
    from Cons.IH[OF this] show ?thesis .
  qed
qed

lemma moveObjects_links:
  "Parent (moveObjects src tgt st a) = Parent (st a) \<and> Children (moveObjects src tgt st a) = Children (st a)"
proof -
  obtain r st' where p: "passLoop src tgt (Objects (st src)) [] st = (r, st')" by (cases "passLoop src tgt (Objects (st src)) [] st")
  from passLoop_links[OF p] show ?thesis by (simp add: moveObjects_def p)
qed

subsection \<open>The system step\<close>

lemma links_moveObjects: "links (moveObjects src tgt st) = links st"
  by (rule ext) (simp add: links_def moveObjects_links)

lemma links_fold_move: "links (fold (\<lambda>(src, tgt). moveObjects src tgt) ps st) = links st"
  by (induction ps arbitrary: st) (auto simp: links_moveObjects)

lemma links_evolve: "links (st(a := Evolve (st a))) = links st"
  by (rule ext) (simp add: links_def Evolve_def Let_def)

lemma evolveAll_fold: "evolveAll as st = fold (\<lambda>a s. s(a := Evolve (s a))) as st"
  by (induction as arbitrary: st) simp_all

lemma links_evolveAll: "links (evolveAll as st) = links st"
  by (induction as arbitrary: st) (simp_all add: links_evolve)

lemma schedule_links: "links st = links st' \<Longrightarrow> transportSchedule as st = transportSchedule as st'"
proof -
  assume l: "links st = links st'"
  have "\<And>a. Parent (st a) = Parent (st' a) \<and> Children (st a) = Children (st' a)"
    using fun_cong[OF l] by (simp add: links_def)
  then show ?thesis by (simp add: transportSchedule_def)
qed

lemma passToChildren_fold:
  "passToChildren a cs st = Inr (fold (\<lambda>(src, tgt). moveObjects src tgt) (map (\<lambda>c. (a, c)) cs) st)"
  by (induction cs arbitrary: st) (simp_all add: PassObjects_def)

lemma transportFrom_fold:
  "transportFrom a st = Inr (fold (\<lambda>(src, tgt). moveObjects src tgt) (transportSchedule [a] st) st)"
proof (cases "Parent (st a)")
  case None
  then show ?thesis by (simp add: transportFrom_def transportSchedule_def passToChildren_fold)
next
  case (Some p)
  have "Children (moveObjects a p st a) = Children (st a)" by (simp add: moveObjects_links)
  with Some show ?thesis
    by (simp add: transportFrom_def transportSchedule_def passToChildren_fold PassObjects_def)
qed

lemma schedule_Cons: "transportSchedule (a # as) st = transportSchedule [a] st @ transportSchedule as st"
  by (simp add: transportSchedule_def)

lemma transportAll_fold:
  "transportAll as st = Inr (fold (\<lambda>(src, tgt). moveObjects src tgt) (transportSchedule as st) st)"
proof (induction as arbitrary: st)
  case Nil
  then show ?case by (simp add: transportSchedule_def)
next
  case (Cons a as)
  define st1 where "st1 = fold (\<lambda>(src, tgt). moveObjects src tgt) (transportSchedule [a] st) st"
  have l: "links st1 = links st" by (simp add: st1_def links_fold_move)
  have "transportAll (a # as) st = transportAll as st1"
    by (simp add: transportFrom_fold st1_def)
  also have "\<dots> = Inr (fold (\<lambda>(src, tgt). moveObjects src tgt) (transportSchedule as st1) st1)"
    by (rule Cons.IH)
  also have "transportSchedule as st1 = transportSchedule as st" using l by (rule schedule_links)
  finally show ?case by (simp add: schedule_Cons[of a as st] st1_def)
qed

lemma Step_eq:
  "Step ms st = Inr (ms\<lparr>StepCount := StepCount ms + 1\<rparr>,
     fold (\<lambda>(src, tgt). moveObjects src tgt) (transportSchedule (All ms) st)
       (fold (\<lambda>a s. s(a := Evolve (s a))) (All ms) st))"
proof -
  have "transportSchedule (All ms) (evolveAll (All ms) st) = transportSchedule (All ms) st"
    by (rule schedule_links) (rule links_evolveAll)
  then show ?thesis by (simp add: Step_def transportAll_fold evolveAll_fold)
qed

lemma sint_succ:
  assumes "sint (w :: 64 word) < 2 ^ 63 - 1"
  shows "sint (w + 1) = sint w + 1"
proof -
  have lo: "- (2 ^ 63) \<le> sint w" using sint_ge[of w] by simp
  have "sint (w + 1) = signed_take_bit 63 (sint w + 1)"
    by (simp add: sint_word_ariths)
  also have "\<dots> = sint w + 1"
    using lo assms by (intro signed_take_bit_int_eq_self) simp_all
  finally show ?thesis .
qed

subsection \<open>Evolve: the claims\<close>

text \<open>
  The model on the example of the specification: a token and a negative signal of value
  \<open>v\<close> under the default rules give one spam score of value \<open>v\<close> and charge -1.
\<close>

lemma Evolve_default_rules_example:
  "Objects (Evolve (testMembrane
      [\<lparr> Type = ''token'', Value = 1, Charge = 0, Mobility = 0.5 \<rparr>,
       \<lparr> Type = ''negative_signal'', Value = v, Charge = -1, Mobility = 0.5 \<rparr>]
      CreateDefaultRules)) =
   [\<lparr> Type = ''spam_score'', Value = v, Charge = -1, Mobility = 0.8 \<rparr>]"
  by (simp add: ev_defs testMembrane_def CreateDefaultRules_def spamTransform_def)

lemma length_nths_compl:
  assumes "distinct mt" "set mt \<subseteq> U" "\<forall>idx \<in> set mt. idx < length xs"
  shows "length (nths xs (- U)) + length mt \<le> length xs"
proof -
  have "length (nths xs (- U)) = card {i. i < length xs \<and> i \<notin> U}"
    by (simp add: length_nths)
  moreover have "card (set mt) = length mt" using assms(1) by (rule distinct_card)
  moreover have "{i. i < length xs \<and> i \<notin> U} \<inter> set mt = {}" using assms(2) by auto
  moreover have "{i. i < length xs \<and> i \<notin> U} \<union> set mt \<subseteq> {..<length xs}" using assms(3) by auto
  then have "card ({i. i < length xs \<and> i \<notin> U} \<union> set mt) \<le> length xs"
    by (metis card_lessThan card_mono finite_lessThan)
  moreover have "card ({i. i < length xs \<and> i \<notin> U} \<union> set mt) = card {i. i < length xs \<and> i \<notin> U} + card (set mt)"
    using calculation(3) by (intro card_Un_disjoint) simp_all
  ultimately show ?thesis by simp
qed

text \<open>
  Claim C4. In one call of \<open>Evolve\<close>, \<open>findMatches\<close> returns at most one match for a rule;
  the rules are taken in descending order of priority (the sorted list is a permutation of
  the membrane's rules); the accepted matches, in the order of the log, belong to a
  subsequence of the sorted rules, so no rule is matched twice; the consumed indices are
  those of the accepted matches and the new objects are the outputs of the accepted
  matches in that order. Afterwards the object list is the original objects at the indices
  not consumed, in their original order, followed by the new objects.
\<close>

theorem Evolve_one_match_per_rule:
  "(\<forall>rule usedObjs. length (findMatches m rule usedObjs) \<le> 1) \<and>
   sorted_wrt (\<lambda>r1 r2. Priority r2 \<le> Priority r1) (sortRules (Rules m)) \<and>
   mset (sortRules (Rules m)) = mset (Rules m) \<and>
   subseq (map fst (fired (applyRules m))) (sortRules (Rules m)) \<and>
   usedObjects (applyRules m) = \<Union> (set (map (set \<circ> snd) (fired (applyRules m)))) \<and>
   newObjects (applyRules m) =
     concat (map (\<lambda>f. ruleOutput m (fst f) (snd f)) (fired (applyRules m))) \<and>
   Objects (Evolve m) =
     nths (Objects m) (- usedObjects (applyRules m)) @ newObjects (applyRules m)"
  using applyRules_char[of m] findMatches_length sortRules_sorted sortRules_mset Evolve_Objects
  by blast

text \<open>
  Claim C9. When a rule with a nil \<open>Transform\<close> accepts a match in \<open>Evolve\<close>, the match is not
  empty, its indices are marked consumed, the rule contributes no new object, and the
  rebuilt object list keeps only unconsumed originals: at least as many original objects
  as the match has are gone.
\<close>

theorem nil_transform_consumes_match:
  assumes "(rule, mt) \<in> set (fired (applyRules m))" and "Transform rule = None"
  shows "mt \<noteq> [] \<and> set mt \<subseteq> usedObjects (applyRules m) \<and> ruleOutput m rule mt = [] \<and>
         Objects (Evolve m) =
           nths (Objects m) (- usedObjects (applyRules m)) @ newObjects (applyRules m) \<and>
         length (nths (Objects m) (- usedObjects (applyRules m))) + length mt \<le> length (Objects m)"
proof -
  note C = applyRules_char[of m]
  from C assms(1) have ok: "firingOK m {} (rule, mt)" by blast
  have sub: "set mt \<subseteq> usedObjects (applyRules m)"
  proof -
    have "set mt \<in> set (map (set \<circ> snd) (fired (applyRules m)))" using assms(1) by force
    then have "set mt \<subseteq> \<Union> (set (map (set \<circ> snd) (fired (applyRules m))))" by blast
    with C show ?thesis by simp
  qed
  have d: "distinct mt" using ok by (auto simp: firingOK_def distinct_map)
  have b: "\<forall>idx \<in> set mt. idx < length (Objects m)" using ok by (simp add: firingOK_def)
  have "mt \<noteq> []" using ok by (simp add: firingOK_def)
  moreover have "ruleOutput m rule mt = []" using assms(2) by (simp add: ruleOutput_def)
  ultimately show ?thesis using sub Evolve_Objects[of m] length_nths_compl[OF d sub b] by simp
qed

text \<open>
  Claim C9 at a membrane holding a token and a signal, with one rule that wants a token
  and has no transform: the token vanishes.
\<close>

theorem nil_transform_consumes_match_witness:
  "(nilRule, [0]) \<in> set (fired (applyRules (testMembrane [tokenObj, signalObj] [nilRule]))) \<and>
   Transform nilRule = None \<and>
   set [0] \<subseteq> usedObjects (applyRules (testMembrane [tokenObj, signalObj] [nilRule])) \<and>
   Objects (Evolve (testMembrane [tokenObj, signalObj] [nilRule])) = [signalObj]"
proof -
  have f: "fired (applyRules (testMembrane [tokenObj, signalObj] [nilRule])) = [(nilRule, [0])]"
    by (simp add: ev_defs ex_defs)
  have h1: "(nilRule, [0]) \<in> set (fired (applyRules (testMembrane [tokenObj, signalObj] [nilRule])))"
    by (simp add: f)
  have h2: "Transform nilRule = None" by (simp add: nilRule_def)
  have e: "Objects (Evolve (testMembrane [tokenObj, signalObj] [nilRule])) = [signalObj]"
    by (simp add: ev_defs ex_defs)
  from nil_transform_consumes_match[OF h1 h2] h1 h2 e show ?thesis by simp
qed

text \<open>
  Claim C10. A rule whose list of required input types is empty never matches:
  \<open>findMatches\<close> returns no match whatever the objects and the consumed set are, the loop
  over its matches leaves the state of \<open>Evolve\<close> as it was (no object consumed or
  produced), and the log of \<open>Evolve\<close> has no entry for the rule, so its transform is never
  called.
\<close>

theorem empty_input_rule_never_fires:
  assumes "InputTypes rule = []"
  shows "findMatches m rule usedObjs = [] \<and> applyRule m rule s = s \<and>
         (\<forall>mt. (rule, mt) \<notin> set (fired (applyRules m)))"
proof -
  have a: "\<And>u. findMatches m rule u = []" using assms by (simp add: findMatches_def)
  have b: "applyRule m rule s = s" by (simp add: applyRule_def a)
  have c: "\<forall>mt. (rule, mt) \<notin> set (fired (applyRules m))"
  proof (intro allI notI)
    fix mt assume "(rule, mt) \<in> set (fired (applyRules m))"
    with applyRules_char[of m] have "firingOK m {} (rule, mt)" by blast
    with assms show False by (simp add: firingOK_def)
  qed
  show ?thesis using a b c by simp
qed

text \<open>
  Claim C10 at a membrane holding one token whose only rule requires nothing and would
  produce an object: the token stays and nothing is produced.
\<close>

theorem empty_input_rule_never_fires_witness:
  "InputTypes emptyRule = [] \<and>
   findMatches (testMembrane [tokenObj] [emptyRule]) emptyRule {} = [] \<and>
   (\<forall>mt. (emptyRule, mt) \<notin> set (fired (applyRules (testMembrane [tokenObj] [emptyRule])))) \<and>
   Objects (Evolve (testMembrane [tokenObj] [emptyRule])) = [tokenObj]"
proof -
  have h: "InputTypes emptyRule = []" by (simp add: emptyRule_def)
  have e: "Objects (Evolve (testMembrane [tokenObj] [emptyRule])) = [tokenObj]"
    by (simp add: ev_defs ex_defs)
  from empty_input_rule_never_fires[OF h, of "testMembrane [tokenObj] [emptyRule]" "{}"] h e
  show ?thesis by simp
qed

text \<open>
  Claim C2 says that a rule listing the same type twice is never matched. It is: with one
  token in the membrane, the rule that lists \<open>token\<close> twice is matched on that token,
  consumes it, and the output of its transform replaces it.
\<close>

theorem duplicate_type_rule_matches_counterexample:
  "\<not> distinct (InputTypes dupRule) \<and>
   findMatches (testMembrane [tokenObj] [dupRule]) dupRule {} = [[0]] \<and>
   fired (applyRules (testMembrane [tokenObj] [dupRule])) = [(dupRule, [0])] \<and>
   Objects (Evolve (testMembrane [tokenObj] [dupRule])) = [producedObj]"
  by (simp add: ev_defs ex_defs)

subsection \<open>Rules with repeated input types\<close>

lemma findMatches_dedup: "findMatches m (dedupTypes r) u = findMatches m r u"
  by (simp add: findMatches_def dedupTypes_def)

lemma swapIfHigher_map:
  assumes "i < length rs" "j < length rs" "\<And>r. Priority (f r) = Priority r"
  shows "swapIfHigher i j (map f rs) = map f (swapIfHigher i j rs)"
  using assms by (simp add: swapIfHigher_def map_update)

lemma fold_swap_map:
  assumes "i < length rs" "\<forall>j \<in> set js. j < length rs" "\<And>r. Priority (f r) = Priority r"
  shows "fold (swapIfHigher i) js (map f rs) = map f (fold (swapIfHigher i) js rs)"
  using assms(1,2)
proof (induction js arbitrary: rs)
  case Nil
  then show ?case by simp
next
  case (Cons j js)
  have "swapIfHigher i j (map f rs) = map f (swapIfHigher i j rs)"
    using Cons.prems assms(3) by (intro swapIfHigher_map) simp_all
  moreover have "fold (swapIfHigher i) js (map f (swapIfHigher i j rs)) = map f (fold (swapIfHigher i) js (swapIfHigher i j rs))"
    using Cons.prems by (intro Cons.IH) simp_all
  ultimately show ?case by simp
qed

lemma sortInner_map:
  assumes "i < length rs" "\<And>r. Priority (f r) = Priority r"
  shows "sortInner i (map f rs) = map f (sortInner i rs)"
  using fold_swap_map[of i rs "[i + 1 ..< length rs]" f] assms by (simp add: sortInner_def)

lemma length_sortInner: "length (sortInner i rs) = length rs"
proof -
  have "\<And>js rs. length (fold (swapIfHigher i) js rs) = length rs"
  proof -
    fix js rs show "length (fold (swapIfHigher i) js rs) = length rs"
      by (induction js arbitrary: rs) simp_all
  qed
  then show ?thesis by (simp add: sortInner_def)
qed

lemma fold_sortInner_map:
  assumes "\<forall>i \<in> set is. i < length rs" "\<And>r. Priority (f r) = Priority r"
  shows "fold sortInner is (map f rs) = map f (fold sortInner is rs)"
  using assms(1)
proof (induction "is" arbitrary: rs)
  case Nil
  then show ?case by simp
next
  case (Cons i "is")
  have "sortInner i (map f rs) = map f (sortInner i rs)"
    using Cons.prems assms(2) by (intro sortInner_map) simp_all
  moreover have "fold sortInner is (map f (sortInner i rs)) = map f (fold sortInner is (sortInner i rs))"
    using Cons.prems by (intro Cons.IH) (simp add: length_sortInner)
  ultimately show ?case by simp
qed

lemma sortRules_map:
  assumes "\<And>r. Priority (f r) = Priority r"
  shows "sortRules (map f rs) = map f (sortRules rs)"
  using fold_sortInner_map[of "[0 ..< length rs]" rs f] assms by (simp add: sortRules_def)

lemma applyRule_dedup:
  assumes "Objects m' = Objects m" "usedObjects s' = usedObjects s" "newObjects s' = newObjects s"
  shows "usedObjects (applyRule m' (dedupTypes r) s') = usedObjects (applyRule m r s) \<and>
         newObjects (applyRule m' (dedupTypes r) s') = newObjects (applyRule m r s)"
proof -
  have fm: "findMatches m' (dedupTypes r) (usedObjects s') = findMatches m r (usedObjects s)"
    using assms(1,2) by (simp add: findMatches_def dedupTypes_def)
  have ro: "\<And>mt. ruleOutput m' (dedupTypes r) mt = ruleOutput m r mt"
    by (simp add: ruleOutput_def dedupTypes_def assms(1) split: option.splits)
  from applyRule_cases[of m r s] show ?thesis
  proof (elim disjE conjE exE)
    assume "findMatches m r (usedObjects s) = []" "applyRule m r s = s"
    then show ?thesis using fm assms by (simp add: applyRule_def)
  next
    fix mt assume "findMatches m r (usedObjects s) = [mt]" "applyRule m r s = applyMatch m r mt s"
    then show ?thesis using fm assms ro by (simp add: applyRule_def applyMatch_def)
  qed
qed

lemma fold_applyRule_dedup:
  assumes "Objects m' = Objects m"
  shows "usedObjects s' = usedObjects s \<Longrightarrow> newObjects s' = newObjects s \<Longrightarrow>
         usedObjects (fold (applyRule m') (map dedupTypes rs) s') = usedObjects (fold (applyRule m) rs s) \<and>
         newObjects (fold (applyRule m') (map dedupTypes rs) s') = newObjects (fold (applyRule m) rs s)"
proof (induction rs arbitrary: s s')
  case Nil
  then show ?case by simp
next
  case (Cons r rs)
  from applyRule_dedup[OF assms Cons.prems, of r]
  have "usedObjects (applyRule m' (dedupTypes r) s') = usedObjects (applyRule m r s)"
       "newObjects (applyRule m' (dedupTypes r) s') = newObjects (applyRule m r s)" by simp_all
  from Cons.IH[OF this] show ?case by simp
qed

lemma Evolve_dedup:
  "Objects (Evolve (m\<lparr>Rules := map dedupTypes (Rules m)\<rparr>)) = Objects (Evolve m)"
proof -
  define m' where "m' = m\<lparr>Rules := map dedupTypes (Rules m)\<rparr>"
  have o: "Objects m' = Objects m" by (simp add: m'_def)
  have sr: "sortRules (Rules m') = map dedupTypes (sortRules (Rules m))"
    by (simp add: m'_def sortRules_map dedupTypes_def)
  have "usedObjects (applyRules m') = usedObjects (applyRules m) \<and> newObjects (applyRules m') = newObjects (applyRules m)"
    unfolding applyRules_def sr by (rule fold_applyRule_dedup[OF o]) simp_all
  then show ?thesis using o by (simp add: Evolve_def Let_def flip: m'_def)
qed

text \<open>
  Claim C2, amended. The matcher never gives a rule two objects of the same type: it
  treats the required types as a set. A rule is matched exactly as the rule with every
  required type listed once would be. It is matched if and only if it requires some type
  and, for each distinct required type, an unconsumed object of that type is present. The
  accepted match then holds one object for each distinct required type, all of different
  types: for each type the first unconsumed object of that type. These indices are
  marked consumed and the transform, if there is one, is called on these objects, its
  output being appended to the new objects. \<open>Evolve\<close> leaves the same objects as it would
  with the duplicates removed from every rule.
\<close>

theorem duplicate_types_match_as_set:
  "findMatches m rule usedObjs =
     findMatches m (rule\<lparr>InputTypes := remdups (InputTypes rule)\<rparr>) usedObjs \<and>
   ((\<exists>mt. findMatches m rule usedObjs = [mt]) \<longleftrightarrow>
      (InputTypes rule \<noteq> [] \<and>
       (\<forall>t \<in> set (InputTypes rule).
          \<exists>idx < length (Objects m). idx \<notin> usedObjs \<and> Type (Objects m ! idx) = t))) \<and>
   (\<forall>mt \<in> set (findMatches m rule usedObjs).
      distinct (map (\<lambda>idx. Type (Objects m ! idx)) mt) \<and>
      length mt = card (set (InputTypes rule)) \<and>
      (\<lambda>idx. Type (Objects m ! idx)) ` set mt = set (InputTypes rule) \<and>
      (\<forall>idx \<in> set mt. idx < length (Objects m) \<and> idx \<notin> usedObjs \<and>
         (\<forall>j. j < idx \<and> j \<notin> usedObjs \<longrightarrow> Type (Objects m ! j) \<noteq> Type (Objects m ! idx))) \<and>
      (\<forall>s. usedObjects s = usedObjs \<longrightarrow>
         applyRule m rule s =
           \<lparr> usedObjects = usedObjs \<union> set mt,
             newObjects = newObjects s @
               (case Transform rule of
                  None \<Rightarrow> []
                | Some f \<Rightarrow> f (map (\<lambda>idx. Objects m ! idx) mt)),
             fired = fired s @ [(rule, mt)] \<rparr>)) \<and>
   Objects (Evolve (m\<lparr>Rules := map (\<lambda>r. r\<lparr>InputTypes := remdups (InputTypes r)\<rparr>) (Rules m)\<rparr>)) =
     Objects (Evolve m)"
proof -
  have a: "findMatches m rule usedObjs = findMatches m (rule\<lparr>InputTypes := remdups (InputTypes rule)\<rparr>) usedObjs"
    using findMatches_dedup[of m rule usedObjs] by (simp add: dedupTypes_def)
  have i: "(\<exists>mt. findMatches m rule usedObjs = [mt]) \<longleftrightarrow>
      (InputTypes rule \<noteq> [] \<and>
       (\<forall>t \<in> set (InputTypes rule).
          \<exists>idx < length (Objects m). idx \<notin> usedObjs \<and> Type (Objects m ! idx) = t))"
  proof
    assume "\<exists>mt. findMatches m rule usedObjs = [mt]"
    then obtain mt where mt: "findMatches m rule usedObjs = [mt]" by blast
    then have mem: "mt \<in> set (findMatches m rule usedObjs)" by simp
    have ne: "InputTypes rule \<noteq> []" using mt by (auto simp: findMatches_def split: if_splits)
    note S = findMatches_sound[OF mem]
    have "\<forall>t \<in> set (InputTypes rule). \<exists>idx < length (Objects m). idx \<notin> usedObjs \<and> Type (Objects m ! idx) = t"
    proof
      fix t assume "t \<in> set (InputTypes rule)"
      with S have "t \<in> (\<lambda>idx. Type (Objects m ! idx)) ` set mt" by simp
      then obtain idx where "idx \<in> set mt" "Type (Objects m ! idx) = t" by auto
      with S show "\<exists>idx < length (Objects m). idx \<notin> usedObjs \<and> Type (Objects m ! idx) = t" by blast
    qed
    with ne show "InputTypes rule \<noteq> [] \<and>
       (\<forall>t \<in> set (InputTypes rule).
          \<exists>idx < length (Objects m). idx \<notin> usedObjs \<and> Type (Objects m ! idx) = t)" by simp
  next
    assume "InputTypes rule \<noteq> [] \<and>
       (\<forall>t \<in> set (InputTypes rule).
          \<exists>idx < length (Objects m). idx \<notin> usedObjs \<and> Type (Objects m ! idx) = t)"
    then show "\<exists>mt. findMatches m rule usedObjs = [mt]" using findMatches_complete by blast
  qed
  have b: "\<forall>mt \<in> set (findMatches m rule usedObjs).
      distinct (map (\<lambda>idx. Type (Objects m ! idx)) mt) \<and>
      length mt = card (set (InputTypes rule)) \<and>
      (\<lambda>idx. Type (Objects m ! idx)) ` set mt = set (InputTypes rule) \<and>
      (\<forall>idx \<in> set mt. idx < length (Objects m) \<and> idx \<notin> usedObjs \<and>
         (\<forall>j. j < idx \<and> j \<notin> usedObjs \<longrightarrow> Type (Objects m ! j) \<noteq> Type (Objects m ! idx))) \<and>
      (\<forall>s. usedObjects s = usedObjs \<longrightarrow>
         applyRule m rule s =
           \<lparr> usedObjects = usedObjs \<union> set mt,
             newObjects = newObjects s @
               (case Transform rule of
                  None \<Rightarrow> []
                | Some f \<Rightarrow> f (map (\<lambda>idx. Objects m ! idx) mt)),
             fired = fired s @ [(rule, mt)] \<rparr>)"
  proof
    fix mt assume mem: "mt \<in> set (findMatches m rule usedObjs)"
    from findMatches_sound[OF mem]
    have d: "distinct (map (\<lambda>idx. Type (Objects m ! idx)) mt)"
      and im: "(\<lambda>idx. Type (Objects m ! idx)) ` set mt = set (InputTypes rule)"
      and rg: "\<forall>idx \<in> set mt. idx < length (Objects m) \<and> idx \<notin> usedObjs" by simp_all
    have "length mt = length (map (\<lambda>idx. Type (Objects m ! idx)) mt)" by simp
    also have "\<dots> = card (set (map (\<lambda>idx. Type (Objects m ! idx)) mt))"
      using d by (rule distinct_card[symmetric])
    also have "\<dots> = card (set (InputTypes rule))" using im by simp
    finally have len: "length mt = card (set (InputTypes rule))" .
    note fst = findMatches_first[OF mem]
    have one: "findMatches m rule usedObjs = [mt]"
      using mem findMatches_cases[of m rule usedObjs] by auto
    have ap: "\<forall>s. usedObjects s = usedObjs \<longrightarrow>
         applyRule m rule s =
           \<lparr> usedObjects = usedObjs \<union> set mt,
             newObjects = newObjects s @
               (case Transform rule of
                  None \<Rightarrow> []
                | Some f \<Rightarrow> f (map (\<lambda>idx. Objects m ! idx) mt)),
             fired = fired s @ [(rule, mt)] \<rparr>"
      using one by (simp add: applyRule_def applyMatch_def ruleOutput_def)
    show "distinct (map (\<lambda>idx. Type (Objects m ! idx)) mt) \<and>
      length mt = card (set (InputTypes rule)) \<and>
      (\<lambda>idx. Type (Objects m ! idx)) ` set mt = set (InputTypes rule) \<and>
      (\<forall>idx \<in> set mt. idx < length (Objects m) \<and> idx \<notin> usedObjs \<and>
         (\<forall>j. j < idx \<and> j \<notin> usedObjs \<longrightarrow> Type (Objects m ! j) \<noteq> Type (Objects m ! idx))) \<and>
      (\<forall>s. usedObjects s = usedObjs \<longrightarrow>
         applyRule m rule s =
           \<lparr> usedObjects = usedObjs \<union> set mt,
             newObjects = newObjects s @
               (case Transform rule of
                  None \<Rightarrow> []
                | Some f \<Rightarrow> f (map (\<lambda>idx. Objects m ! idx) mt)),
             fired = fired s @ [(rule, mt)] \<rparr>)"
      using d len im rg fst ap by blast
  qed
  have c: "Objects (Evolve (m\<lparr>Rules := map (\<lambda>r. r\<lparr>InputTypes := remdups (InputTypes r)\<rparr>) (Rules m)\<rparr>)) = Objects (Evolve m)"
    using Evolve_dedup[of m] by (simp add: dedupTypes_def[abs_def])
  show ?thesis using a i b c by blast
qed

text \<open>
  Claim C2, amended, at the membrane and rule of the counterexample: the one token is
  there, so the rule that lists the type twice is matched on it and its transform runs.
\<close>

theorem duplicate_types_match_as_set_witness:
  "InputTypes dupRule = [''token'', ''token''] \<and>
   (0 :: nat) < length (Objects (testMembrane [tokenObj] [dupRule])) \<and>
   Type (Objects (testMembrane [tokenObj] [dupRule]) ! 0) = ''token'' \<and>
   (\<exists>mt. findMatches (testMembrane [tokenObj] [dupRule]) dupRule {} = [mt]) \<and>
   [0] \<in> set (findMatches (testMembrane [tokenObj] [dupRule]) dupRule {}) \<and>
   length [0 :: nat] = card (set (InputTypes dupRule)) \<and>
   usedObjects \<lparr> usedObjects = {}, newObjects = [], fired = [] \<rparr> = {} \<and>
   applyRule (testMembrane [tokenObj] [dupRule]) dupRule
       \<lparr> usedObjects = {}, newObjects = [], fired = [] \<rparr> =
     \<lparr> usedObjects = {0}, newObjects = [producedObj], fired = [(dupRule, [0])] \<rparr>"
proof -
  note T = duplicate_types_match_as_set[of "testMembrane [tokenObj] [dupRule]" dupRule "{}"]
  have ty: "InputTypes dupRule = [''token'', ''token'']" by (simp add: dupRule_def)
  have o: "(0 :: nat) < length (Objects (testMembrane [tokenObj] [dupRule]))"
    "Type (Objects (testMembrane [tokenObj] [dupRule]) ! 0) = ''token''"
    by (simp_all add: ex_defs)
  have pres: "InputTypes dupRule \<noteq> [] \<and>
       (\<forall>t \<in> set (InputTypes dupRule).
          \<exists>idx < length (Objects (testMembrane [tokenObj] [dupRule])). idx \<notin> {} \<and>
             Type (Objects (testMembrane [tokenObj] [dupRule]) ! idx) = t)"
    using o by (auto simp: ty)
  have ex: "\<exists>mt. findMatches (testMembrane [tokenObj] [dupRule]) dupRule {} = [mt]"
    using conjunct1[OF conjunct2[OF T]] pres by blast
  have f: "findMatches (testMembrane [tokenObj] [dupRule]) dupRule {} = [[0]]"
    by (simp add: ev_defs ex_defs)
  then have h: "[0] \<in> set (findMatches (testMembrane [tokenObj] [dupRule]) dupRule {})" by simp
  note B = bspec[OF conjunct1[OF conjunct2[OF conjunct2[OF T]]] h]
  have len: "length [0 :: nat] = card (set (InputTypes dupRule))" using B by blast
  have u: "usedObjects \<lparr> usedObjects = {}, newObjects = [], fired = [] \<rparr> = {}" by simp
  have "applyRule (testMembrane [tokenObj] [dupRule]) dupRule
       \<lparr> usedObjects = {}, newObjects = [], fired = [] \<rparr> =
     \<lparr> usedObjects = {} \<union> set [0], newObjects = newObjects \<lparr> usedObjects = {}, newObjects = [], fired = [] \<rparr> @
               (case Transform dupRule of
                  None \<Rightarrow> []
                | Some f \<Rightarrow> f (map (\<lambda>idx. Objects (testMembrane [tokenObj] [dupRule]) ! idx) [0])),
             fired = fired \<lparr> usedObjects = {}, newObjects = [], fired = [] \<rparr> @ [(dupRule, [0])] \<rparr>"
    using B u by blast
  then have ap: "applyRule (testMembrane [tokenObj] [dupRule]) dupRule
       \<lparr> usedObjects = {}, newObjects = [], fired = [] \<rparr> =
     \<lparr> usedObjects = {0}, newObjects = [producedObj], fired = [(dupRule, [0])] \<rparr>"
    by (simp add: dupRule_def)
  show ?thesis using ty o ex h len u ap by simp
qed

subsection \<open>Transport and step: the claims\<close>

text \<open>
  Claim C5, amended: for a target other than the source, and with the products taken in
  binary64 arithmetic. \<open>PassObjects\<close> succeeds; the target receives, after its own objects
  and in order, the objects of the source for which permeability times mobility times
  (1.2 if the charge is not 0, else 1.0) exceeds 0.5, each product rounded to nearest;
  the source keeps the others in order; nothing else changes. The result is a function of
  the inputs. An object of mobility 1 and charge other than 0 passes a membrane of
  permeability 1; an object of mobility 0 never passes.
\<close>

theorem PassObjects_threshold:
  assumes "src \<noteq> tgt"
  shows "PassObjects src (Some tgt) st =
           Inr (st(tgt := (st tgt)\<lparr>Objects := Objects (st tgt) @
                    filter (\<lambda>obj. fgt (fmul (fmul (Finite (Permeability (st src)))
                                                  (Finite (Mobility obj)))
                                            (if Charge obj \<noteq> 0 then round64 1.2 else round64 1.0))
                                      (round64 0.5))
                      (Objects (st src))\<rparr>,
                  src := (st src)\<lparr>Objects :=
                    filter (\<lambda>obj. \<not> fgt (fmul (fmul (Finite (Permeability (st src)))
                                                    (Finite (Mobility obj)))
                                              (if Charge obj \<noteq> 0 then round64 1.2 else round64 1.0))
                                        (round64 0.5))
                      (Objects (st src))\<rparr>)) \<and>
         (\<forall>obj. passProb (st src) obj =
                 fmul (fmul (Finite (Permeability (st src))) (Finite (Mobility obj)))
                   (if Charge obj \<noteq> 0 then round64 1.2 else round64 1.0)) \<and>
         (\<forall>obj. Permeability (st src) = 1 \<and> Mobility obj = 1 \<and> Charge obj \<noteq> 0 \<longrightarrow>
                 fgt (passProb (st src) obj) (round64 0.5)) \<and>
         (\<forall>obj. Mobility obj = 0 \<longrightarrow> \<not> fgt (passProb (st src) obj) (round64 0.5))"
proof -
  have "PassObjects src (Some tgt) st = Inr (moveObjects src tgt st)" by (simp add: PassObjects_def)
  then have a: "PassObjects src (Some tgt) st =
           Inr (st(tgt := (st tgt)\<lparr>Objects := Objects (st tgt) @
                    filter (\<lambda>obj. fgt (fmul (fmul (Finite (Permeability (st src)))
                                                  (Finite (Mobility obj)))
                                            (if Charge obj \<noteq> 0 then round64 1.2 else round64 1.0))
                                      (round64 0.5))
                      (Objects (st src))\<rparr>,
                  src := (st src)\<lparr>Objects :=
                    filter (\<lambda>obj. \<not> fgt (fmul (fmul (Finite (Permeability (st src)))
                                                    (Finite (Mobility obj)))
                                              (if Charge obj \<noteq> 0 then round64 1.2 else round64 1.0))
                                        (round64 0.5))
                      (Objects (st src))\<rparr>))"
    unfolding moveObjects_distinct[OF assms] passProb_formula .
  have f: "\<forall>obj. passProb (st src) obj =
                 fmul (fmul (Finite (Permeability (st src))) (Finite (Mobility obj)))
                   (if Charge obj \<noteq> 0 then round64 1.2 else round64 1.0)"
    by (simp only: passProb_formula) simp
  have b: "\<forall>obj. Permeability (st src) = 1 \<and> Mobility obj = 1 \<and> Charge obj \<noteq> 0 \<longrightarrow>
      fgt (passProb (st src) obj) (round64 0.5)"
    using passProb_one_one by blast
  have c: "\<forall>obj. Mobility obj = 0 \<longrightarrow> \<not> fgt (passProb (st src) obj) (round64 0.5)"
    using passProb_mobility_zero by blast
  show ?thesis using a f b c by blast
qed

lemma passProb_signal: "passProb (pairStore a) signalObj = Finite (5404319552844595 / 4503599627370496)"
  by (simp add: passProb_formula pairStore_def signalObj_def round64_1 round64_1_2 round64_1_2_value)

lemma passProb_token: "passProb (pairStore a) tokenObj = Finite (1/2)"
  by (simp add: passProb_formula pairStore_def tokenObj_def round64_1 round64_half)

lemma pairStore_move:
  "Objects (moveObjects 0 1 pairStore 0) = [] \<and> Objects (moveObjects 0 1 pairStore 1) = [tokenObj, signalObj]"
proof -
  have o: "Objects (pairStore 0) = [signalObj]" "Objects (pairStore 1) = [tokenObj]"
    by (simp_all add: pairStore_def)
  have p: "fgt (passProb (pairStore 0) signalObj) (round64 0.5)"
    by (simp add: passProb_signal round64_half)
  have "(0::nat) \<noteq> 1" by simp
  note e = moveObjects_distinct[OF this, of pairStore]
  have a: "Objects (moveObjects 0 1 pairStore 0) = []" unfolding e o using p by simp
  have b: "Objects (moveObjects 0 1 pairStore 1) = [tokenObj, signalObj]" unfolding e o using p by simp
  show ?thesis using a b by simp
qed

text \<open>
  Claim C5, amended, at a root of permeability 1 holding a charged object of mobility 1 and
  its child: the object moves to the child.
\<close>

theorem PassObjects_threshold_witness:
  "(0 :: nat) \<noteq> 1 \<and> PassObjects 0 (Some 1) pairStore = Inr (moveObjects 0 1 pairStore) \<and>
   Permeability (pairStore 0) = 1 \<and> Mobility signalObj = 1 \<and> Charge signalObj \<noteq> 0 \<and>
   fgt (passProb (pairStore 0) signalObj) (round64 0.5) \<and>
   Objects (moveObjects 0 1 pairStore 0) = [] \<and>
   Objects (moveObjects 0 1 pairStore 1) = [tokenObj, signalObj] \<and>
   Mobility (signalObj\<lparr>Mobility := 0\<rparr>) = 0 \<and>
   \<not> fgt (passProb (pairStore 0) (signalObj\<lparr>Mobility := 0\<rparr>)) (round64 0.5)"
proof -
  have h: "(0 :: nat) \<noteq> 1" by simp
  have p: "Permeability (pairStore 0) = 1 \<and> Mobility signalObj = 1 \<and> Charge signalObj \<noteq> 0"
    by (simp add: pairStore_def signalObj_def)
  have q: "Mobility (signalObj\<lparr>Mobility := 0\<rparr>) = 0" by simp
  have m: "PassObjects 0 (Some 1) pairStore = Inr (moveObjects 0 1 pairStore)"
    by (simp add: PassObjects_def)
  note T = PassObjects_threshold[OF h, of pairStore]
  have t2: "fgt (passProb (pairStore 0) signalObj) (round64 0.5)"
    using conjunct1[OF conjunct2[OF conjunct2[OF T]]] p by blast
  have t3: "\<not> fgt (passProb (pairStore 0) (signalObj\<lparr>Mobility := 0\<rparr>)) (round64 0.5)"
    using conjunct2[OF conjunct2[OF conjunct2[OF T]]] q by blast
  show ?thesis using h p q m t2 t3 pairStore_move by simp
qed

text \<open>
  Claim C5 is stated for every non-nil target. When the target is the source itself, an
  object above the threshold is appended to the list that the final assignment of
  \<open>remaining\<close> then overwrites: it is in no membrane afterwards.
\<close>

theorem PassObjects_self_target_counterexample:
  "Objects (selfStore 0) = [signalObj] \<and> fgt (passProb (selfStore 0) signalObj) (round64 0.5) \<and>
   PassObjects 0 (Some 0) selfStore = Inr (moveObjects 0 0 selfStore) \<and>
   Objects (moveObjects 0 0 selfStore 0) = []"
proof -
  have v: "passProb (selfStore 0) signalObj = Finite (5404319552844595 / 4503599627370496)"
    by (simp add: passProb_formula selfStore_def signalObj_def round64_1 round64_1_2 round64_1_2_value)
  have p: "fgt (passProb (selfStore 0) signalObj) (round64 0.5)"
    by (simp add: v round64_half)
  have o: "Objects (selfStore 0) = [signalObj]" by (simp add: selfStore_def)
  have "Objects (moveObjects 0 0 selfStore 0) = []"
    using p by (simp add: moveObjects_def o)
  then show ?thesis using p by (simp add: PassObjects_def) (simp add: selfStore_def)
qed

text \<open>
  The model follows the rounding of the code where the exact products would decide
  otherwise: at permeability 1 and charge 1 an object of mobility 0.4166666666666667 has
  the threshold value 0.5 and stays, although the exact product exceeds 0.5.
\<close>

lemma passProb_rounding_example:
  "\<not> fgt (passProb (selfStore 0)
             \<lparr> Type = ''x'', Value = 1, Charge = 1, Mobility = 7505999378950827 / 18014398509481984 \<rparr>)
         (round64 0.5) \<and>
   1 * (7505999378950827 / 18014398509481984) * (5404319552844595 / 4503599627370496) > (0.5 :: real)"
  using fmul_rounds_to_half by (simp add: passProb_formula selfStore_def round64_half)

text \<open>
  Claim C6. \<open>Step\<close> always succeeds. Its resulting store is obtained by first evolving every
  registered membrane in registry order and only then running the transports of the
  schedule (registry order; for each membrane the parent first, then the children in
  child order) one after the other, each on the store left by the one before; each
  transport is what \<open>PassObjects\<close> does. The step counter is incremented by 1 (in 64-bit
  arithmetic; below the largest value the signed value grows by exactly 1).
\<close>

theorem Step_order:
  "Step ms st =
     Inr (ms\<lparr>StepCount := StepCount ms + 1\<rparr>,
          fold (\<lambda>(src, tgt). moveObjects src tgt) (transportSchedule (All ms) st)
            (fold (\<lambda>a s. s(a := Evolve (s a))) (All ms) st)) \<and>
   (\<forall>src tgt s. PassObjects src (Some tgt) s = Inr (moveObjects src tgt s)) \<and>
   (sint (StepCount ms) < 2 ^ 63 - 1 \<longrightarrow> sint (StepCount ms + 1) = sint (StepCount ms) + 1)"
  using Step_eq[of ms st] sint_succ[of "StepCount ms"] by (simp add: PassObjects_def)

lemma Evolve_no_rules: "Rules m = [] \<Longrightarrow> Evolve m = m"
  by (simp add: ev_defs remainingObjects_nths nths_all)

lemma passProb_permeability:
  "Permeability m' = Permeability m \<Longrightarrow> passProb m' obj = passProb m obj"
  by (simp add: passProb_def)

lemma pairStep:
  "transportSchedule (All pairSystem) pairStore = [(0, 1), (1, 0)] \<and>
   map_sum id (\<lambda>(ms, st). (StepCount ms, Objects (st 0), Objects (st 1))) (Step pairSystem pairStore)
     = Inr (1, [signalObj], [tokenObj])"
proof -
  have sch: "transportSchedule (All pairSystem) pairStore = [(0, 1), (1, 0)]"
    by (simp add: transportSchedule_def pairSystem_def pairStore_def)
  have ev: "\<And>a. Evolve (pairStore a) = pairStore a"
    by (rule Evolve_no_rules) (simp add: pairStore_def)
  have evs: "fold (\<lambda>a s. s(a := Evolve (s a))) (All pairSystem) pairStore = pairStore"
    by (simp add: pairSystem_def ev)
  define st1 where "st1 = moveObjects 0 1 pairStore"
  have a1: "Objects (st1 0) = []" "Objects (st1 1) = [tokenObj, signalObj]"
    using pairStore_move by (simp_all add: st1_def)
  have "(0::nat) \<noteq> 1" by simp
  note e1 = moveObjects_distinct[OF this, of pairStore]
  have perm: "Permeability (st1 1) = Permeability (pairStore 1)"
    unfolding st1_def e1 by simp
  have pt: "\<not> fgt (passProb (st1 1) tokenObj) (round64 0.5)"
    using passProb_permeability[OF perm, of tokenObj] by (simp add: passProb_token round64_half)
  have ps: "fgt (passProb (st1 1) signalObj) (round64 0.5)"
    using passProb_permeability[OF perm, of signalObj] by (simp add: passProb_signal round64_half)
  have "(1::nat) \<noteq> 0" by simp
  note e2 = moveObjects_distinct[OF this, of st1]
  have b0: "Objects (moveObjects 1 0 st1 0) = [signalObj]" unfolding e2 a1 using pt ps by simp
  have b1: "Objects (moveObjects 1 0 st1 1) = [tokenObj]" unfolding e2 a1 using pt ps by simp
  have "Step pairSystem pairStore =
      Inr (pairSystem\<lparr>StepCount := StepCount pairSystem + 1\<rparr>, moveObjects 1 0 st1)"
    unfolding Step_eq sch evs by (simp add: st1_def)
  then show ?thesis using sch b0 b1 by (simp add: pairSystem_def)
qed

text \<open>
  Claim C6 at a root with one child: the charged object first moves from the root to the
  child and is then sent back by the child's transport to its parent.
\<close>

theorem Step_order_witness:
  "sint (StepCount pairSystem) < 2 ^ 63 - 1 \<and>
   sint (StepCount pairSystem + 1) = sint (StepCount pairSystem) + 1 \<and>
   transportSchedule (All pairSystem) pairStore = [(0, 1), (1, 0)] \<and>
   map_sum id (\<lambda>(ms, st). (StepCount ms, Objects (st 0), Objects (st 1))) (Step pairSystem pairStore)
     = Inr (1, [signalObj], [tokenObj])"
proof -
  have h: "sint (StepCount pairSystem) < 2 ^ 63 - 1" by (simp add: pairSystem_def)
  note T = Step_order[of pairSystem pairStore]
  have s: "sint (StepCount pairSystem + 1) = sint (StepCount pairSystem) + 1"
    using conjunct2[OF conjunct2[OF T]] h by (rule mp)
  show ?thesis using h s pairStep by simp
qed

subsection \<open>The engine: the claims\<close>

lemma foldOpt_fixed: "(\<And>x. x \<in> set xs \<Longrightarrow> f x s = Some s) \<Longrightarrow> foldOpt f xs s = Some s"
  by (induction xs) simp_all

lemma trainSample_zero:
  "trainSample 0 [[0]] [[0]] (Suc 0) (Suc 0) 0 [[v]] = Some [[v]]"
  by (simp add: trainSample_def forwardPass_def prediction_def backwardPass_def updateWeight_def elemAt_def)

lemma gradientDescent_zero:
  "gradientDescent 0 [[0]] [[0]] (Suc 0) (Suc 0) [[v]] = Some [[v]]"
  unfolding gradientDescent_def
  by (rule foldOpt_fixed) (simp add: trainSample_zero)

text \<open>
  Claim C1 says that an engine with output weights resumes training from them. On an engine
  whose output weights are [[1]], with ridge parameter 0 and the one sample (state [0],
  target [0]), every gradient is 0: resumed training would leave [[1]], as
  \<open>TrainOutput_resuming\<close> does, but \<open>TrainOutput\<close> leaves [[0]].
\<close>

theorem TrainOutput_resets_weights_counterexample:
  "outputWeights demoEngine = Some [[1]] \<and> trained demoEngine \<and>
   TrainOutput demoEngine [[0]] [[0]] = Returned None (demoEngine\<lparr>outputWeights := Some [[0]]\<rparr>) \<and>
   TrainOutput_resuming demoEngine [[0]] [[0]] = Returned None demoEngine"
  by (simp add: TrainOutput_def TrainOutput_resuming_def gradientDescent_zero demoEngine_def)

text \<open>
  Claim C1, amended. For every engine, trained or not, and every pair of states and
  targets of equal, nonzero length, \<open>TrainOutput\<close> allocates the output weights anew, as the
  zero matrix with one row per target component and one column per state component, and
  runs the gradient descent from it: the call gives the same result whatever the previous
  output weights were.
\<close>

theorem TrainOutput_restarts_from_zero:
  assumes "length states = length targets" and "states \<noteq> []"
  shows "TrainOutput e states targets =
           (case gradientDescent (RidgeParam (params e)) states targets
                   (length (states ! 0)) (length (targets ! 0))
                   (replicate (length (targets ! 0)) (replicate (length (states ! 0)) 0)) of
              None \<Rightarrow> Panicked
            | Some w \<Rightarrow> Returned None (e\<lparr>outputWeights := Some w, trained := True\<rparr>)) \<and>
         TrainOutput (e\<lparr>outputWeights := previous\<rparr>) states targets = TrainOutput e states targets"
proof -
  have n: "length states \<noteq> 0" "targets \<noteq> []" using assms by auto
  show ?thesis
    by (cases "gradientDescent (RidgeParam (params e)) states targets
                   (length (states ! 0)) (length (targets ! 0))
                   (replicate (length (targets ! 0)) (replicate (length (states ! 0)) 0))")
       (simp_all add: TrainOutput_def Let_def assms(1) n)
qed

text \<open>Claim C1, amended, at the engine of the counterexample, trained and untrained.\<close>

theorem TrainOutput_restarts_from_zero_witness:
  "length [[0 :: real]] = length [[0 :: real]] \<and> [[0 :: real]] \<noteq> [] \<and>
   TrainOutput (demoEngine\<lparr>outputWeights := None\<rparr>) [[0]] [[0]] = TrainOutput demoEngine [[0]] [[0]] \<and>
   TrainOutput demoEngine [[0]] [[0]] = Returned None (demoEngine\<lparr>outputWeights := Some [[0]]\<rparr>)"
proof -
  have h1: "length [[0 :: real]] = length [[0 :: real]]" by simp
  have h2: "[[0 :: real]] \<noteq> []" by simp
  have e: "TrainOutput demoEngine [[0]] [[0]] = Returned None (demoEngine\<lparr>outputWeights := Some [[0]]\<rparr>)"
    by (simp add: TrainOutput_def gradientDescent_zero demoEngine_def)
  have "demoEngine\<lparr>outputWeights := Some [[1]]\<rparr> = demoEngine" by (simp add: demoEngine_def)
  with TrainOutput_restarts_from_zero[OF h1 h2, of "demoEngine\<lparr>outputWeights := None\<rparr>" "Some [[1]]"] e
  show ?thesis by simp
qed

text \<open>
  Claim C3. When the input weights exist and the length of the input differs from the
  length of their first row, \<open>Update\<close> returns the dimension mismatch error and the engine
  is exactly as before: state, input, reservoir and output weights, and all the rest.
\<close>

theorem Update_dimension_mismatch:
  assumes "inputWeights e \<noteq> []" and "length input \<noteq> length (inputWeights e ! 0)"
  shows "Update e input = Returned (Some DimensionMismatch) e"
  using assms by (simp add: Update_def elemAt_def)

text \<open>Claim C3 at an engine with two input weights per neuron and an input of length one.\<close>

theorem Update_dimension_mismatch_witness:
  "inputWeights demoEngine \<noteq> [] \<and> length [1 :: real] \<noteq> length (inputWeights demoEngine ! 0) \<and>
   Update demoEngine [1] = Returned (Some DimensionMismatch) demoEngine"
proof -
  have h1: "inputWeights demoEngine \<noteq> []" by (simp add: demoEngine_def)
  have h2: "length [1 :: real] \<noteq> length (inputWeights demoEngine ! 0)" by (simp add: demoEngine_def)
  from Update_dimension_mismatch[OF h1 h2] h1 h2 show ?thesis by simp
qed

text \<open>
  Claim C8. For every engine, whatever calls led to it, \<open>Reset\<close> makes every component of
  the state zero, keeps its length, and changes nothing else: input, reservoir and
  output weights and the trained flag are as before.
\<close>

theorem Reset_zeroes_state_only:
  "state (Reset e) = replicate (length (state e)) 0 \<and>
   inputWeights (Reset e) = inputWeights e \<and>
   reservoirWeights (Reset e) = reservoirWeights e \<and>
   outputWeights (Reset e) = outputWeights e \<and>
   trained (Reset e) = trained e \<and>
   Reset e = e\<lparr>state := replicate (length (state e)) 0\<rparr>"
  by (simp add: Reset_def map_replicate_const)

lemma Update_example:
  "Update demoEngine [1, 1] = Returned None (demoEngine\<lparr>state := [0.159125]\<rparr>)"
  by (simp add: Update_def elemAt_def demoEngine_def newState_def neuronUpdate_def weightedSum_def
    applyMembraneEvolution_def membraneDecay_def applyRicciFlow_def ricciNeuron_def Let_def)

lemma Update_first_example:
  "Update (demoEngine\<lparr>inputWeights := []\<rparr>) [1] =
     Returned None (demoEngine\<lparr>inputWeights := [[0]], state := [0.159125]\<rparr>)"
  by (simp add: Update_def elemAt_def demoEngine_def newState_def neuronUpdate_def weightedSum_def
    setInputWeights_def applyMembraneEvolution_def membraneDecay_def applyRicciFlow_def ricciNeuron_def Let_def)

subsection \<open>The hierarchy\<close>

lemma frame_refl: "frame s s"
  by (simp add: frame_def split: prod.splits)

lemma frame_trans: "frame s1 s2 \<Longrightarrow> frame s2 s3 \<Longrightarrow> frame s1 s3"
  by (auto simp: frame_def split: prod.splits)

lemma fold_AddRule:
  "fold (AddRule c) rs st = st(c := (st c)\<lparr>Rules := Rules (st c) @ rs\<rparr>)"
proof (induction rs arbitrary: st)
  case Nil
  then show ?case by simp
next
  case (Cons r rs)
  have "fold (AddRule c) (r # rs) st = fold (AddRule c) rs (AddRule c r st)" by simp
  also have "\<dots> = (AddRule c r st)(c := (AddRule c r st c)\<lparr>Rules := Rules (AddRule c r st c) @ rs\<rparr>)"
    by (rule Cons.IH)
  also have "\<dots> = st(c := (st c)\<lparr>Rules := Rules (st c) @ r # rs\<rparr>)"
    by (simp add: AddRule_def)
  finally show ?case .
qed

lemma spawnChild_eq:
  assumes "parent \<noteq> free"
  shows "spawnChild parent cur i (ms, (st, free)) =
     (free, (ms\<lparr>All := All ms @ [free]\<rparr>,
        (st(free := \<lparr> ID = ID (st parent) @ ''_'' @ (if i = 0 then ''0'' else ''1''), Level = cur,
                      Permeability = 0.5 + 0.1 * real_of_int cur, Objects = [],
                      Rules = CreateDefaultRules, Parent = Some parent, Children = [] \<rparr>,
            parent := (st parent)\<lparr>Children := Children (st parent) @ [free]\<rparr>),
         free + 1)))"
  using assms
  by (simp add: spawnChild_def NewMembrane_def AddChild_def fold_AddRule Let_def fun_upd_twist)

lemma spawnChild_inv:
  assumes inv: "treeInv (ms, (st, free))" and p: "Root ms \<le> parent" "parent < free"
    and lev: "Level (st parent) = cur - 1"
  shows "\<exists>ms2 st2. spawnChild parent cur i (ms, (st, free)) = (free, (ms2, (st2, free + 1))) \<and>
           treeInv (ms2, (st2, free + 1)) \<and> frame (ms, (st, free)) (ms2, (st2, free + 1)) \<and>
           Level (st2 free) = cur"
proof -
  define fresh where "fresh = \<lparr> ID = ID (st parent) @ ''_'' @ (if i = 0 then ''0'' else ''1''), Level = cur,
                      Permeability = 0.5 + 0.1 * real_of_int cur, Objects = [],
                      Rules = CreateDefaultRules, Parent = Some parent, Children = [] \<rparr>"
  define st2 where "st2 = st(free := fresh, parent := (st parent)\<lparr>Children := Children (st parent) @ [free]\<rparr>)"
  define ms2 where "ms2 = ms\<lparr>All := All ms @ [free]\<rparr>"
  have ne: "parent \<noteq> free" using p by simp
  have eq: "spawnChild parent cur i (ms, (st, free)) = (free, (ms2, (st2, free + 1)))"
    unfolding st2_def ms2_def fresh_def by (rule spawnChild_eq[OF ne])
  have r: "Root ms < free" and al: "All ms = [Root ms ..< free]"
    and par: "\<And>a. Root ms < a \<Longrightarrow> a < free \<Longrightarrow>
        \<exists>q. Parent (st a) = Some q \<and> Root ms \<le> q \<and> q < a \<and> a \<in> set (Children (st q)) \<and>
             Level (st a) = Level (st q) + 1 \<and>
             Permeability (st a) = 0.5 + 0.1 * real_of_int (Level (st a))"
    and ch: "\<And>a. Root ms \<le> a \<Longrightarrow> a < free \<Longrightarrow> set (Children (st a)) \<subseteq> {a<..<free}"
    using inv by (auto simp: treeInv_def)
  have sfree: "st2 free = fresh" using ne by (simp add: st2_def)
  have spar: "st2 parent = (st parent)\<lparr>Children := Children (st parent) @ [free]\<rparr>" by (simp add: st2_def)
  have soth: "\<And>a. a \<noteq> free \<Longrightarrow> a \<noteq> parent \<Longrightarrow> st2 a = st a" by (simp add: st2_def)
  have keep: "\<And>a. a \<noteq> free \<Longrightarrow> ID (st2 a) = ID (st a) \<and> Level (st2 a) = Level (st a) \<and>
      Permeability (st2 a) = Permeability (st a) \<and> Parent (st2 a) = Parent (st a) \<and>
      set (Children (st a)) \<subseteq> set (Children (st2 a))"
  proof -
    fix a assume "a \<noteq> free"
    then show "ID (st2 a) = ID (st a) \<and> Level (st2 a) = Level (st a) \<and>
      Permeability (st2 a) = Permeability (st a) \<and> Parent (st2 a) = Parent (st a) \<and>
      set (Children (st a)) \<subseteq> set (Children (st2 a))"
      by (cases "a = parent") (auto simp: spar soth)
  qed
  have i1: "Root ms2 < free + 1" using r by (simp add: ms2_def)
  have i2: "All ms2 = [Root ms2 ..< free + 1]" using al r by (simp add: ms2_def)
  have i3: "\<forall>a. Root ms2 < a \<and> a < free + 1 \<longrightarrow>
        (\<exists>q. Parent (st2 a) = Some q \<and> Root ms2 \<le> q \<and> q < a \<and> a \<in> set (Children (st2 q)) \<and>
             Level (st2 a) = Level (st2 q) + 1 \<and>
             Permeability (st2 a) = 0.5 + 0.1 * real_of_int (Level (st2 a)))"
  proof (intro allI impI)
    fix a assume a: "Root ms2 < a \<and> a < free + 1"
    show "\<exists>q. Parent (st2 a) = Some q \<and> Root ms2 \<le> q \<and> q < a \<and> a \<in> set (Children (st2 q)) \<and>
             Level (st2 a) = Level (st2 q) + 1 \<and>
             Permeability (st2 a) = 0.5 + 0.1 * real_of_int (Level (st2 a))"
    proof (cases "a = free")
      case True
      have "Parent (st2 a) = Some parent" "Level (st2 a) = cur"
        "Permeability (st2 a) = 0.5 + 0.1 * real_of_int (Level (st2 a))"
        using True by (simp_all add: sfree fresh_def)
      moreover have "a \<in> set (Children (st2 parent))" using True by (simp add: spar)
      moreover have "Level (st2 parent) = cur - 1" using lev by (simp add: spar)
      ultimately show ?thesis using p True by (intro exI[of _ parent]) (simp add: ms2_def)
    next
      case False
      with a have lt: "Root ms < a" "a < free" by (simp_all add: ms2_def)
      from par[OF lt] obtain q where q: "Parent (st a) = Some q" "Root ms \<le> q" "q < a"
        "a \<in> set (Children (st q))" "Level (st a) = Level (st q) + 1"
        "Permeability (st a) = 0.5 + 0.1 * real_of_int (Level (st a))" by blast
      have qf: "q \<noteq> free" using q(3) lt by simp
      note ka = keep[OF False] and kq = keep[OF qf]
      have "Parent (st2 a) = Some q" using ka q(1) by simp
      moreover have "a \<in> set (Children (st2 q))" using kq q(4) by blast
      moreover have "Level (st2 a) = Level (st2 q) + 1" using ka kq q(5) by simp
      moreover have "Permeability (st2 a) = 0.5 + 0.1 * real_of_int (Level (st2 a))" using ka q(6) by simp
      ultimately show ?thesis using q(2,3) by (intro exI[of _ q]) (simp add: ms2_def)
    qed
  qed
  have i4: "\<forall>a. Root ms2 \<le> a \<and> a < free + 1 \<longrightarrow> set (Children (st2 a)) \<subseteq> {a<..<free + 1}"
  proof (intro allI impI)
    fix a assume a: "Root ms2 \<le> a \<and> a < free + 1"
    show "set (Children (st2 a)) \<subseteq> {a<..<free + 1}"
    proof (cases "a = free")
      case True
      then show ?thesis by (simp add: sfree fresh_def)
    next
      case False
      with a have lt: "Root ms \<le> a" "a < free" by (simp_all add: ms2_def)
      note c = ch[OF lt]
      show ?thesis
      proof (cases "a = parent")
        case True
        then show ?thesis using c p by (auto simp: spar)
      next
        case np: False
        then show ?thesis using c False by (auto simp: soth)
      qed
    qed
  qed
  have inv2: "treeInv (ms2, (st2, free + 1))"
    unfolding treeInv_def using i1 i2 i3 i4 by simp
  have fr: "frame (ms, (st, free)) (ms2, (st2, free + 1))"
    unfolding frame_def using keep by (simp add: ms2_def)
  have "Level (st2 free) = cur" by (simp add: sfree fresh_def)
  with eq inv2 fr show ?thesis by blast
qed

lemma buildHierarchy_inv:
  "treeInv s \<Longrightarrow> Root (fst s) \<le> parent \<Longrightarrow> parent < snd (snd s) \<Longrightarrow>
   Level (fst (snd s) parent) = cur - 1 \<Longrightarrow>
   treeInv (buildHierarchy parent maxD cur s) \<and> frame s (buildHierarchy parent maxD cur s)"
proof (induction parent maxD cur s rule: buildHierarchy.induct)
  case (1 parent maxDepth currentDepth s)
  obtain ms st free where s: "s = (ms, (st, free))" by (cases s) auto
  have inv: "treeInv (ms, (st, free))" and p: "Root ms \<le> parent" "parent < free"
    and lev: "Level (st parent) = currentDepth - 1"
    using "1.prems" by (simp_all add: s)
  show ?case
  proof (cases "maxDepth \<le> currentDepth")
    case True
    then have "buildHierarchy parent maxDepth currentDepth s = s"
      by (subst buildHierarchy.simps) simp
    then show ?thesis using "1.prems"(1) by (simp add: frame_refl)
  next
    case False
    from spawnChild_inv[OF inv p lev, of 0] obtain ms0 st0 where
      sp0: "spawnChild parent currentDepth 0 s = (free, (ms0, (st0, free + 1)))"
      and inv0: "treeInv (ms0, (st0, free + 1))"
      and fr0: "frame s (ms0, (st0, free + 1))"
      and lev0: "Level (st0 free) = currentDepth"
      unfolding s by blast
    define s0 where "s0 = (ms0, (st0, free + 1))"
    define s0' where "s0' = buildHierarchy free maxDepth (currentDepth + 1) s0"
    have r0: "Root ms0 = Root ms" using fr0 by (simp add: frame_def s)
    have ih1: "treeInv s0' \<and> frame s0 s0'"
      unfolding s0'_def
    proof (rule "1.IH"(1)[OF False])
      show "(free, s0) = spawnChild parent currentDepth 0 s" by (simp add: sp0 s0_def)
      show "treeInv s0" using inv0 by (simp add: s0_def)
      show "Root (fst s0) \<le> free" using r0 p by (simp add: s0_def)
      show "free < snd (snd s0)" by (simp add: s0_def)
      show "Level (fst (snd s0) free) = currentDepth + 1 - 1" using lev0 by (simp add: s0_def)
    qed
    obtain ms1 st1 free1 where s1: "s0' = (ms1, (st1, free1))" by (cases s0') auto
    have fr01: "frame s s0'" using fr0 ih1 frame_trans unfolding s0_def by blast
    have r1: "Root ms1 = Root ms" and f1: "free \<le> free1"
      and l1: "Level (st1 parent) = Level (st parent)"
      using fr01 p by (simp_all add: frame_def s s1)
    have inv1: "treeInv (ms1, (st1, free1))" using ih1 by (simp add: s1)
    have p1: "Root ms1 \<le> parent" "parent < free1" using r1 f1 p by simp_all
    have lev1: "Level (st1 parent) = currentDepth - 1" using l1 lev by simp
    from spawnChild_inv[OF inv1 p1 lev1, of 1] obtain ms2 st2 where
      sp1: "spawnChild parent currentDepth 1 s0' = (free1, (ms2, (st2, free1 + 1)))"
      and inv2: "treeInv (ms2, (st2, free1 + 1))"
      and fr2: "frame s0' (ms2, (st2, free1 + 1))"
      and lev2: "Level (st2 free1) = currentDepth"
      unfolding s1 by blast
    define s2 where "s2 = (ms2, (st2, free1 + 1))"
    have r2: "Root ms2 = Root ms1" using fr2 by (simp add: frame_def s1)
    have ih2: "treeInv (buildHierarchy free1 maxDepth (currentDepth + 1) s2) \<and>
               frame s2 (buildHierarchy free1 maxDepth (currentDepth + 1) s2)"
    proof (rule "1.IH"(2)[OF False])
      show "(free, s0) = spawnChild parent currentDepth 0 s" by (simp add: sp0 s0_def)
      show "(free1, s2) = spawnChild parent currentDepth 1 (buildHierarchy free maxDepth (currentDepth + 1) s0)"
        using sp1 by (simp add: s2_def s0'_def)
      show "treeInv s2" using inv2 by (simp add: s2_def)
      show "Root (fst s2) \<le> free1" using r2 p1 by (simp add: s2_def)
      show "free1 < snd (snd s2)" by (simp add: s2_def)
      show "Level (fst (snd s2) free1) = currentDepth + 1 - 1" using lev2 by (simp add: s2_def)
    qed
    have res: "buildHierarchy parent maxDepth currentDepth s = buildHierarchy free1 maxDepth (currentDepth + 1) s2"
      using False sp0 sp1
      by (subst buildHierarchy.simps) (simp add: s0_def s0'_def s2_def)
    have "frame s s2" using fr01 fr2 frame_trans unfolding s2_def by blast
    then have "frame s (buildHierarchy free1 maxDepth (currentDepth + 1) s2)"
      using ih2 frame_trans by blast
    then show ?thesis using ih2 unfolding res by blast
  qed
qed

lemma reachable_eq:
  assumes "treeInv (ms, (st, free))"
  shows "set (All ms) = reachable st (Root ms)"
proof -
  have r: "Root ms < free" and al: "All ms = [Root ms ..< free]"
    and par: "\<And>a. Root ms < a \<Longrightarrow> a < free \<Longrightarrow>
        \<exists>q. Parent (st a) = Some q \<and> Root ms \<le> q \<and> q < a \<and> a \<in> set (Children (st q))"
    and ch: "\<And>a. Root ms \<le> a \<Longrightarrow> a < free \<Longrightarrow> set (Children (st a)) \<subseteq> {a<..<free}"
    using assms by (auto simp: treeInv_def)
  have sub1: "a \<in> reachable st (Root ms)" if "Root ms \<le> a" "a < free" for a
    using that
  proof (induction a rule: less_induct)
    case (less a)
    show ?case
    proof (cases "a = Root ms")
      case True
      then show ?thesis by (simp add: reachable_root)
    next
      case False
      with less.prems have "Root ms < a" by simp
      from par[OF this less.prems(2)] obtain q where q: "Root ms \<le> q" "q < a" "a \<in> set (Children (st q))"
        by blast
      have "q \<in> reachable st (Root ms)" using less.IH[OF q(2) q(1)] q(2) less.prems(2) by simp
      then show ?thesis using q(3) by (rule reachable_child)
    qed
  qed
  have sub2: "Root ms \<le> a \<and> a < free" if "a \<in> reachable st (Root ms)" for a
    using that
  proof (induction rule: reachable.induct)
    case reachable_root
    then show ?case using r by simp
  next
    case (reachable_child a c)
    then have "c \<in> {a<..<free}" using ch[of a] by blast
    then show ?case using reachable_child by simp
  qed
  show ?thesis using sub1 sub2 by (auto simp: al)
qed


lemma build2:
  "All (fst (NewMembraneSystem 2 (emptyStore, 0))) = [0, 1, 2] \<and>
   Root (fst (NewMembraneSystem 2 (emptyStore, 0))) = 0 \<and>
   snd (snd (NewMembraneSystem 2 (emptyStore, 0))) = 3 \<and>
   Parent (fst (snd (NewMembraneSystem 2 (emptyStore, 0))) 1) = Some 0 \<and>
   Children (fst (snd (NewMembraneSystem 2 (emptyStore, 0))) 0) = [1, 2] \<and>
   ID (fst (snd (NewMembraneSystem 2 (emptyStore, 0))) 2) = ''root_1'' \<and>
   Level (fst (snd (NewMembraneSystem 2 (emptyStore, 0))) 1) = 1 \<and>
   Permeability (fst (snd (NewMembraneSystem 2 (emptyStore, 0))) 1) = 0.6"
  by (simp add: NewMembraneSystem_def NewMembrane_def buildHierarchy.simps spawnChild_def
      AddChild_def fold_AddRule emptyStore_def Let_def)


end
